theory Spec2Isabelle
  imports Complex_Main "HOL-Library.AList"
begin

section \<open>Counter names: \<open>parse_app_pegasus_perf_counter_name\<close>\<close>

text \<open>
  \<open>std::string::find_last_of(c)\<close>: the greatest index that holds \<open>c\<close>;
  \<open>None\<close> stands for \<open>std::string::npos\<close>.
\<close>

fun find_last_of :: "string \<Rightarrow> char \<Rightarrow> nat option" where
  "find_last_of [] c = None"
| "find_last_of (x # xs) c =
     (case find_last_of xs c of
        Some i \<Rightarrow> Some (Suc i)
      | None \<Rightarrow> if x = c then Some 0 else None)"

text \<open>
  \<open>name.c_str() + k\<close> read as a C string: the characters from index \<open>k\<close> up to
  the first NUL (a \<open>std::string\<close> may hold NUL characters; \<open>sscanf\<close> stops there).
\<close>

definition c_str :: "string \<Rightarrow> string" where
  "c_str s = takeWhile (\<lambda>c. c \<noteq> CHR 0x00) s"

text \<open>
  \<open>sscanf(s, "%d.%d", &a, &b)\<close> of the C library. A \<open>%d\<close> directive skips white
  space (\<open>isspace\<close> of the C locale), reads an optional sign and then decimal digits, at
  least one. The end of the input before a directive is an input failure, anything else
  that does not fit is a matching failure. The literal \<open>.\<close> of the format matches
  exactly that character. The call returns the number of values assigned, and \<open>EOF\<close>
  (\<open>-1\<close>) on an input failure before the first assignment.
\<close>

definition isspace :: "char \<Rightarrow> bool" where
  "isspace c = (c \<in> set [CHR '' '', CHR 0x09, CHR 0x0A, CHR 0x0B, CHR 0x0C, CHR 0x0D])"

definition isdigit :: "char \<Rightarrow> bool" where
  "isdigit c = (c \<in> set ''0123456789'')"

definition digit_val :: "char \<Rightarrow> int" where
  "digit_val c = of_char c - 48"

definition decimal :: "string \<Rightarrow> int" where
  "decimal ds = foldl (\<lambda>a d. 10 * a + digit_val d) 0 ds"

text \<open>
  The value a \<open>%d\<close> stores in an \<open>int32_t\<close>. Where the digits fit the result is their
  value. Where they do not, the C standard leaves the behaviour undefined; the C library
  of the platform (64-bit \<open>long\<close>) converts with \<open>strtol\<close>, which stops at
  \<open>LONG_MIN\<close> and \<open>LONG_MAX\<close>, and keeps the low 32 bits.
\<close>

definition store_int32 :: "int \<Rightarrow> int" where
  "store_int32 v =
     (let l = max (- (2 ^ 63)) (min (2 ^ 63 - 1) v)
      in (l + 2 ^ 31) mod 2 ^ 32 - 2 ^ 31)"

datatype conversion = Input_failure | Matching_failure | Converted int string

definition scan_d :: "string \<Rightarrow> conversion" where
  "scan_d s =
     (case dropWhile isspace s of
        [] \<Rightarrow> Input_failure
      | c # cs \<Rightarrow>
          let neg = (c = CHR ''-'');
              ds = (if c = CHR ''-'' \<or> c = CHR ''+'' then cs else c # cs);
              digits = takeWhile isdigit ds
          in if digits = [] then Matching_failure
             else Converted (store_int32 (if neg then - decimal digits else decimal digits))
                    (dropWhile isdigit ds))"

text \<open>
  The result is the returned count with the two output variables, which keep their old
  values where nothing was assigned.
\<close>

definition sscanf_d_dot_d :: "string \<Rightarrow> int \<Rightarrow> int \<Rightarrow> int \<times> int \<times> int" where
  "sscanf_d_dot_d s a b =
     (case scan_d s of
        Input_failure \<Rightarrow> (- 1, a, b)
      | Matching_failure \<Rightarrow> (0, a, b)
      | Converted x r \<Rightarrow>
          (case r of
             [] \<Rightarrow> (1, x, b)
           | c # r' \<Rightarrow>
               if c \<noteq> CHR ''.'' then (1, x, b)
               else (case scan_d r' of
                       Converted y r'' \<Rightarrow> (2, x, y)
                     | _ \<Rightarrow> (1, x, b))))"

text \<open>
  \<open>size_type\<close> arithmetic is unsigned and 64 bits wide: \<open>find - find2 - 1\<close> wraps
  around when \<open>find2 \<ge> find\<close>.
\<close>

definition size_sub :: "nat \<Rightarrow> nat \<Rightarrow> nat" where
  "size_sub a b = nat ((int a - int b) mod 2 ^ 64)"

text \<open>
  \<open>s.substr(pos, n)\<close>: at most \<open>n\<close> characters from index \<open>pos\<close>. It throws
  when \<open>pos > s.size()\<close>; the parser calls it with \<open>pos = find2 + 1\<close>, where
  \<open>find2\<close> is an index of \<open>s\<close>.
\<close>

definition substr :: "string \<Rightarrow> nat \<Rightarrow> nat \<Rightarrow> string" where
  "substr s pos n = take n (drop pos s)"

text \<open>
  The parser writes through three reference parameters and returns a \<open>bool\<close>. The
  model takes the old values of the three variables and returns the \<open>bool\<close> with their
  new values: \<open>sscanf\<close> may have assigned to them when the parser returns \<open>false\<close>.
  The source's local \<open>find\<close> is \<open>find1\<close> here.
\<close>

definition parse_app_pegasus_perf_counter_name ::
  "string \<Rightarrow> int \<Rightarrow> int \<Rightarrow> string \<Rightarrow> bool \<times> int \<times> int \<times> string" where
  "parse_app_pegasus_perf_counter_name name app_id partition_index counter_name =
     (case find_last_of name (CHR ''@'') of
        None \<Rightarrow> (False, app_id, partition_index, counter_name)
      | Some find1 \<Rightarrow>
          (case sscanf_d_dot_d (c_str (drop (find1 + 1) name)) app_id partition_index of
             (n, app_id', partition_index') \<Rightarrow>
               if n \<noteq> 2 then (False, app_id', partition_index', counter_name)
               else (case find_last_of name (CHR ''*'') of
                       None \<Rightarrow> (False, app_id', partition_index', counter_name)
                     | Some find2 \<Rightarrow>
                         (True, app_id', partition_index',
                          substr name (find2 + 1) (size_sub (size_sub find1 find2) 1)))))"

section \<open>The top-rows container: \<open>top_container\<close>\<close>

record top_heap_item =
  hash_key :: string
  sort_key :: string
  row_size :: int

text \<open>
  \<open>top_heap\<close> is a \<open>std::priority_queue\<close> ordered by \<open>top_heap_compare\<close>, which is
  \<open>i1.row_size < i2.row_size\<close>: \<open>top()\<close> is an element that the comparison puts below
  no other one, that is an element of greatest \<open>row_size\<close>, and \<open>pop()\<close> removes it.
  The model keeps the queue as a list in non-increasing order of \<open>row_size\<close> with the
  top at the head. Which of several elements of equal size is the top is not fixed by the
  interface of the queue; here it is the one that was inserted first.
\<close>

fun emplace :: "top_heap_item \<Rightarrow> top_heap_item list \<Rightarrow> top_heap_item list" where
  "emplace x [] = [x]"
| "emplace x (y # ys) =
     (if row_size y < row_size x then x # y # ys else y # emplace x ys)"

record top_container =
  heap_count :: int
  heap :: "top_heap_item list"

text \<open>The constructor \<open>top_container(int count)\<close>; the fields are \<open>_count\<close> and \<open>_heap\<close>.\<close>

definition new_top_container :: "int \<Rightarrow> top_container" where
  "new_top_container k = \<lparr>heap_count = k, heap = []\<rparr>"

text \<open>
  \<open>_heap.size() < _count\<close> compares a \<open>size_t\<close> with an \<open>int\<close>: the \<open>int\<close> is
  converted to the unsigned 64-bit type first.
\<close>

definition size_less_int :: "nat \<Rightarrow> int \<Rightarrow> bool" where
  "size_less_int n k = (int n < k mod 2 ^ 64)"

text \<open>
  \<open>push\<close> runs under the container's lock, so it is one atomic step. \<open>top()\<close> of an
  empty queue is undefined behaviour (\<open>None\<close>); it is reached when \<open>_count\<close> is \<open>0\<close>.
\<close>

definition push :: "string \<Rightarrow> string \<Rightarrow> int \<Rightarrow> top_container \<Rightarrow> top_container option" where
  "push hk sk sz c =
     (if size_less_int (length (heap c)) (heap_count c)
      then Some (c\<lparr>heap := emplace \<lparr>hash_key = hk, sort_key = sk, row_size = sz\<rparr> (heap c)\<rparr>)
      else (case heap c of
              [] \<Rightarrow> None
            | top_item # rest \<Rightarrow>
                if row_size top_item < sz
                then Some (c\<lparr>heap := emplace \<lparr>hash_key = hk, sort_key = sk, row_size = sz\<rparr> rest\<rparr>)
                else Some c))"

section \<open>Nodes and the command fan-out: \<open>fill_nodes\<close>, \<open>call_remote_command\<close>\<close>

text \<open>
  \<open>dsn::rpc_address\<close> is only compared for equality. A \<open>dsn::error_code\<close> is modelled
  by the name that \<open>to_string()\<close> gives.
\<close>

type_synonym rpc_address = nat

type_synonym error_code = string

definition ERR_OK :: error_code where
  "ERR_OK = ''ERR_OK''"

datatype node_status = NS_INVALID | NS_ALIVE | NS_UNALIVE

record node_desc =
  desc :: string
  address :: rpc_address

text \<open>The fields of \<open>dsn::app_info\<close> and \<open>dsn::partition_configuration\<close> that are read.\<close>

record app_info =
  ai_app_id :: int
  ai_app_name :: string
  ai_partition_count :: int

record partition_configuration =
  primary :: rpc_address

text \<open>
  The shell context gives access to the administrative client. Its calls are modelled by
  what they return: \<open>list_nodes(NS_ALIVE, rs_nodes)\<close> the error code and the map's entries in
  key order, \<open>list_apps(AS_AVAILABLE, apps)\<close> the error code and the applications,
  \<open>list_app(name, app_id, partition_count, partitions)\<close> the error code and its three
  outputs.
\<close>

record shell_context =
  meta_list :: "rpc_address list"
  ddl_list_nodes :: "error_code \<times> (rpc_address \<times> node_status) list"
  ddl_list_apps :: "error_code \<times> app_info list"
  ddl_list_app :: "string \<Rightarrow> error_code \<times> int \<times> int \<times> partition_configuration list"

definition fill_nodes :: "shell_context \<Rightarrow> string \<Rightarrow> node_desc list \<Rightarrow> bool \<times> node_desc list" where
  "fill_nodes sc type nodes =
     (let nodes1 =
            (if type = ''all'' \<or> type = ''meta-server''
             then nodes @ map (\<lambda>addr. \<lparr>desc = ''meta-server'', address = addr\<rparr>) (meta_list sc)
             else nodes)
      in if type = ''all'' \<or> type = ''replica-server''
         then (case ddl_list_nodes sc of
                 (err, rs_nodes) \<Rightarrow>
                   if err \<noteq> ERR_OK then (False, nodes1)
                   else (True, nodes1 @
                           map (\<lambda>kv. \<lparr>desc = ''replica-server'', address = fst kv\<rparr>) rs_nodes))
         else (True, nodes1))"

record command =
  cmd :: string
  arguments :: "string list"

text \<open>
  One call \<open>cli.call(cmd, callback, timeout, 0, 0, 0, address)\<close>, and what its callback
  receives: the error code and, with \<open>ERR_OK\<close>, the string in the response.
\<close>

record cli_call =
  call_cmd :: command
  call_timeout_ms :: int
  call_address :: rpc_address

record cli_reply =
  reply_err :: error_code
  reply_resp :: string

text \<open>\<open>v.resize(n)\<close>: the first \<open>n\<close> elements of \<open>v\<close>, filled up with default elements.\<close>

definition resize :: "nat \<Rightarrow> 'a \<Rightarrow> 'a list \<Rightarrow> 'a list" where
  "resize n d xs = take n xs @ replicate (n - length xs) d"

text \<open>The calls of the first loop, one per node, in the order of the nodes.\<close>

definition remote_calls :: "node_desc list \<Rightarrow> command \<Rightarrow> cli_call list" where
  "remote_calls nodes c =
     map (\<lambda>n. \<lparr>call_cmd = c, call_timeout_ms = 5000, call_address = address n\<rparr>) nodes"

text \<open>
  The callback of the call for node \<open>i\<close> writes both components of \<open>results[i]\<close>:
  \<open>true\<close> and the string of the response, or \<open>false\<close> and the name of the error.
\<close>

definition reply_result :: "cli_reply \<Rightarrow> bool \<times> string" where
  "reply_result r =
     (if reply_err r = ERR_OK then (True, reply_resp r) else (False, reply_err r))"

definition callback :: "nat \<Rightarrow> cli_reply \<Rightarrow> (bool \<times> string) list \<Rightarrow> (bool \<times> string) list" where
  "callback i r results = results[i := reply_result r]"

text \<open>
  The function makes one call for each node and then waits for each task. A call is
  answered at some later time, when its callback runs on a thread of the network layer,
  while the caller goes on. The state of an execution: \<open>results\<close>; \<open>tasks\<close>, of which
  element \<open>i\<close> is null until the call for node \<open>i\<close> is made, and is then the call with
  whether its callback has run; and the point of the code that the caller has reached,
  iteration \<open>i\<close> of the first loop, iteration \<open>i\<close> of the second loop, or the return.
\<close>

datatype fan_pc = Calling nat | Waiting nat | Joined

record fan_out =
  fo_results :: "(bool \<times> string) list"
  fo_tasks :: "(cli_call \<times> bool) option list"
  fo_pc :: fan_pc

text \<open>
  What happens next is chosen from outside. \<open>Caller_step\<close>: the caller takes its next
  step, one iteration of the first loop, which makes a call, or one iteration of the
  second, whose \<open>wait()\<close> returns only when the task has finished. \<open>Callback j r\<close>: the
  call for node \<open>j\<close> is answered with the error code and the response of \<open>r\<close> (a timeout
  is an error code like any other), and its callback runs. \<open>None\<close>: the event is not
  possible in the state; a caller in \<open>wait()\<close> on a task that has not finished is blocked.
\<close>

datatype fan_event = Caller_step | Callback nat cli_reply

text \<open>
  The two \<open>resize\<close> at the start: \<open>tasks\<close> is new, \<open>results\<close> is the caller's vector.
\<close>

definition fan_start :: "node_desc list \<Rightarrow> (bool \<times> string) list \<Rightarrow> fan_out" where
  "fan_start nodes results =
     \<lparr>fo_results = resize (length nodes) (False, []) results,
      fo_tasks = resize (length nodes) None [],
      fo_pc = Calling 0\<rparr>"

definition fan_step :: "node_desc list \<Rightarrow> command \<Rightarrow> fan_out \<Rightarrow> fan_event \<Rightarrow> fan_out option" where
  "fan_step nodes c s e =
     (case e of
        Caller_step \<Rightarrow>
          (case fo_pc s of
             Calling i \<Rightarrow>
               if i < length nodes
               then Some (s\<lparr>fo_tasks := (fo_tasks s)[i := Some (remote_calls nodes c ! i, False)],
                            fo_pc := Calling (i + 1)\<rparr>)
               else Some (s\<lparr>fo_pc := Waiting 0\<rparr>)
           | Waiting i \<Rightarrow>
               if i < length nodes
               then (case fo_tasks s ! i of
                       None \<Rightarrow> None
                     | Some task \<Rightarrow> if snd task then Some (s\<lparr>fo_pc := Waiting (i + 1)\<rparr>) else None)
               else Some (s\<lparr>fo_pc := Joined\<rparr>)
           | Joined \<Rightarrow> None)
      | Callback j r \<Rightarrow>
          if j < length (fo_tasks s)
          then (case fo_tasks s ! j of
                  None \<Rightarrow> None
                | Some task \<Rightarrow>
                    if snd task then None
                    else Some (s\<lparr>fo_results := callback j r (fo_results s),
                                 fo_tasks := (fo_tasks s)[j := Some (fst task, True)]\<rparr>))
          else None)"

fun fan_run :: "node_desc list \<Rightarrow> command \<Rightarrow> fan_out \<Rightarrow> fan_event list \<Rightarrow> fan_out option" where
  "fan_run nodes c s [] = Some s"
| "fan_run nodes c s (e # es) =
     (case fan_step nodes c s e of
        None \<Rightarrow> None
      | Some s' \<Rightarrow> fan_run nodes c s' es)"

text \<open>
  \<open>call_remote_command\<close> under the schedule \<open>es\<close>: the \<open>results\<close> with which it returns, if
  at the end of \<open>es\<close> the caller has returned.
\<close>

definition call_remote_command ::
  "fan_event list \<Rightarrow> shell_context \<Rightarrow> node_desc list \<Rightarrow> command \<Rightarrow>
     (bool \<times> string) list \<Rightarrow> (bool \<times> string) list option" where
  "call_remote_command es sc nodes c results =
     (case fan_run nodes c (fan_start nodes results) es of
        None \<Rightarrow> None
      | Some s \<Rightarrow> if fo_pc s = Joined then Some (fo_results s) else None)"

text \<open>
  The answers that the callbacks of node \<open>j\<close> have received in a schedule; whether the task
  of node \<open>j\<close> has finished; the number of steps the caller has taken at a point of the code.
\<close>

definition replies :: "nat \<Rightarrow> fan_event list \<Rightarrow> cli_reply list" where
  "replies j es =
     concat (map (\<lambda>e. case e of Caller_step \<Rightarrow> [] | Callback j' r \<Rightarrow> if j' = j then [r] else []) es)"

definition finished :: "fan_out \<Rightarrow> nat \<Rightarrow> bool" where
  "finished s j = (case fo_tasks s ! j of None \<Rightarrow> False | Some task \<Rightarrow> snd task)"

definition position :: "nat \<Rightarrow> fan_pc \<Rightarrow> nat" where
  "position n p = (case p of Calling i \<Rightarrow> i | Waiting i \<Rightarrow> n + 1 + i | Joined \<Rightarrow> 2 * n + 2)"

text \<open>
  What holds of the state after the schedule \<open>es\<close>: the calls are made in the order of the
  nodes, the caller has passed only tasks that have finished, a task has finished exactly
  when its callback has run, which it has done once, with the pair of its answer in its
  element of \<open>results\<close>, and every event of the schedule was a step of the caller or the
  one callback of a task.
\<close>

definition fan_inv :: "node_desc list \<Rightarrow> command \<Rightarrow> fan_event list \<Rightarrow> fan_out \<Rightarrow> bool" where
  "fan_inv nodes c es s \<longleftrightarrow>
     length (fo_tasks s) = length nodes \<and> length (fo_results s) = length nodes \<and>
     (case fo_pc s of
        Calling i \<Rightarrow> i \<le> length nodes \<and> (\<forall>j<length nodes. fo_tasks s ! j \<noteq> None \<longleftrightarrow> j < i)
      | Waiting i \<Rightarrow> i \<le> length nodes \<and> (\<forall>j<length nodes. fo_tasks s ! j \<noteq> None) \<and>
          (\<forall>j<i. finished s j)
      | Joined \<Rightarrow> (\<forall>j<length nodes. finished s j)) \<and>
     (\<forall>j<length nodes. if finished s j
        then \<exists>r. replies j es = [r] \<and> fo_results s ! j = reply_result r
        else replies j es = []) \<and>
     (\<forall>j. length nodes \<le> j \<longrightarrow> replies j es = []) \<and>
     length es = position (length nodes) (fo_pc s) + length (filter (finished s) [0..<length nodes])"

section \<open>Aggregation of the counters: \<open>get_app_stat\<close>\<close>

text \<open>
  The accumulators of a row are \<open>double\<close>s. The model leaves the number type open: it is
  any type with a \<open>0\<close> and an addition, and nothing is assumed of the addition.
\<close>

record 'v row_data =
  row_name :: string
  get_qps :: 'v
  multi_get_qps :: 'v
  put_qps :: 'v
  multi_put_qps :: 'v
  remove_qps :: 'v
  multi_remove_qps :: 'v
  incr_qps :: 'v
  check_and_set_qps :: 'v
  check_and_mutate_qps :: 'v
  scan_qps :: 'v
  recent_expire_count :: 'v
  recent_filter_count :: 'v
  recent_abnormal_count :: 'v
  storage_mb :: 'v
  storage_count :: 'v
  rdb_block_cache_hit_count :: 'v
  rdb_block_cache_total_count :: 'v
  rdb_block_cache_mem_usage :: 'v
  rdb_index_and_filter_blocks_mem_usage :: 'v
  rdb_memtable_mem_usage :: 'v

definition new_row_data :: "'v::zero row_data" where
  "new_row_data =
     \<lparr>row_name = [], get_qps = 0, multi_get_qps = 0, put_qps = 0, multi_put_qps = 0,
      remove_qps = 0, multi_remove_qps = 0, incr_qps = 0, check_and_set_qps = 0,
      check_and_mutate_qps = 0, scan_qps = 0, recent_expire_count = 0,
      recent_filter_count = 0, recent_abnormal_count = 0, storage_mb = 0, storage_count = 0,
      rdb_block_cache_hit_count = 0, rdb_block_cache_total_count = 0,
      rdb_block_cache_mem_usage = 0, rdb_index_and_filter_blocks_mem_usage = 0,
      rdb_memtable_mem_usage = 0\<rparr>"

definition update_app_pegasus_perf_counter ::
  "'v::plus row_data \<Rightarrow> string \<Rightarrow> 'v \<Rightarrow> bool \<times> 'v row_data" where
  "update_app_pegasus_perf_counter row counter_name v =
     (if counter_name = ''get_qps'' then (True, row\<lparr>get_qps := get_qps row + v\<rparr>)
      else if counter_name = ''multi_get_qps''
        then (True, row\<lparr>multi_get_qps := multi_get_qps row + v\<rparr>)
      else if counter_name = ''put_qps'' then (True, row\<lparr>put_qps := put_qps row + v\<rparr>)
      else if counter_name = ''multi_put_qps''
        then (True, row\<lparr>multi_put_qps := multi_put_qps row + v\<rparr>)
      else if counter_name = ''remove_qps''
        then (True, row\<lparr>remove_qps := remove_qps row + v\<rparr>)
      else if counter_name = ''multi_remove_qps''
        then (True, row\<lparr>multi_remove_qps := multi_remove_qps row + v\<rparr>)
      else if counter_name = ''incr_qps'' then (True, row\<lparr>incr_qps := incr_qps row + v\<rparr>)
      else if counter_name = ''check_and_set_qps''
        then (True, row\<lparr>check_and_set_qps := check_and_set_qps row + v\<rparr>)
      else if counter_name = ''check_and_mutate_qps''
        then (True, row\<lparr>check_and_mutate_qps := check_and_mutate_qps row + v\<rparr>)
      else if counter_name = ''scan_qps'' then (True, row\<lparr>scan_qps := scan_qps row + v\<rparr>)
      else if counter_name = ''recent.expire.count''
        then (True, row\<lparr>recent_expire_count := recent_expire_count row + v\<rparr>)
      else if counter_name = ''recent.filter.count''
        then (True, row\<lparr>recent_filter_count := recent_filter_count row + v\<rparr>)
      else if counter_name = ''recent.abnormal.count''
        then (True, row\<lparr>recent_abnormal_count := recent_abnormal_count row + v\<rparr>)
      else if counter_name = ''disk.storage.sst(MB)''
        then (True, row\<lparr>storage_mb := storage_mb row + v\<rparr>)
      else if counter_name = ''disk.storage.sst.count''
        then (True, row\<lparr>storage_count := storage_count row + v\<rparr>)
      else if counter_name = ''rdb.block_cache.hit_count''
        then (True, row\<lparr>rdb_block_cache_hit_count := rdb_block_cache_hit_count row + v\<rparr>)
      else if counter_name = ''rdb.block_cache.total_count''
        then (True, row\<lparr>rdb_block_cache_total_count := rdb_block_cache_total_count row + v\<rparr>)
      else if counter_name = ''rdb.block_cache.memory_usage''
        then (True, row\<lparr>rdb_block_cache_mem_usage := rdb_block_cache_mem_usage row + v\<rparr>)
      else if counter_name = ''rdb.index_and_filter_blocks.memory_usage''
        then (True, row\<lparr>rdb_index_and_filter_blocks_mem_usage :=
                         rdb_index_and_filter_blocks_mem_usage row + v\<rparr>)
      else if counter_name = ''rdb.memtable.memory_usage''
        then (True, row\<lparr>rdb_memtable_mem_usage := rdb_memtable_mem_usage row + v\<rparr>)
      else (False, row))"

text \<open>
  The accumulators of a row, each under the counter name with which
  \<open>update_app_pegasus_perf_counter\<close> adds to it.
\<close>

definition accumulators :: "'v row_data \<Rightarrow> (string \<times> 'v) list" where
  "accumulators row =
     [(''get_qps'', get_qps row),
      (''multi_get_qps'', multi_get_qps row),
      (''put_qps'', put_qps row),
      (''multi_put_qps'', multi_put_qps row),
      (''remove_qps'', remove_qps row),
      (''multi_remove_qps'', multi_remove_qps row),
      (''incr_qps'', incr_qps row),
      (''check_and_set_qps'', check_and_set_qps row),
      (''check_and_mutate_qps'', check_and_mutate_qps row),
      (''scan_qps'', scan_qps row),
      (''recent.expire.count'', recent_expire_count row),
      (''recent.filter.count'', recent_filter_count row),
      (''recent.abnormal.count'', recent_abnormal_count row),
      (''disk.storage.sst(MB)'', storage_mb row),
      (''disk.storage.sst.count'', storage_count row),
      (''rdb.block_cache.hit_count'', rdb_block_cache_hit_count row),
      (''rdb.block_cache.total_count'', rdb_block_cache_total_count row),
      (''rdb.block_cache.memory_usage'', rdb_block_cache_mem_usage row),
      (''rdb.index_and_filter_blocks.memory_usage'', rdb_index_and_filter_blocks_mem_usage row),
      (''rdb.memtable.memory_usage'', rdb_memtable_mem_usage row)]"

record 'v perf_counter_metric =
  m_name :: string
  m_value :: 'v

record 'v perf_counter_info =
  info_result :: string
  info_counters :: "'v perf_counter_metric list"

text \<open>
  A failed \<open>dassert\<close> stops the process. \<open>v[i]\<close> outside of \<open>v\<close> is undefined
  behaviour; a \<open>resize\<close> to a negative \<open>int\<close>, which converts to a size beyond
  \<open>max_size()\<close>, throws.
\<close>

datatype failure = Assertion_failure | Out_of_bounds | Length_error

text \<open>
  \<open>v[i]\<close> with an \<open>int\<close> index: the index is converted to the unsigned \<open>size_type\<close>,
  so a negative one lies beyond the end of every vector.
\<close>

definition vec_at :: "'a list \<Rightarrow> int \<Rightarrow> 'a option" where
  "vec_at xs i = (if 0 \<le> i \<and> nat i < length xs then Some (xs ! nat i) else None)"

text \<open>The loop over the counters of one node; \<open>f\<close> is the body of the loop.\<close>

fun add_counters :: "('m \<Rightarrow> 'r \<Rightarrow> failure + 'r) \<Rightarrow> 'm list \<Rightarrow> 'r \<Rightarrow> failure + 'r" where
  "add_counters f [] rows = Inr rows"
| "add_counters f (m # ms) rows =
     (case f m rows of
        Inl e \<Rightarrow> Inl e
      | Inr rows' \<Rightarrow> add_counters f ms rows')"

text \<open>
  The body of the loop over the nodes is the same in both branches up to the body of the
  inner loop: a node whose call failed, whose answer does not decode or whose answer is
  not \<open>OK\<close> makes \<open>get_app_stat\<close> return at once (\<open>Returned\<close>). \<open>decode\<close> is the JSON
  decoder of \<open>dsn::perf_counter_info\<close>.
\<close>

datatype 'r flow = Failed failure | Returned 'r | Continue 'r

definition add_node ::
  "(string \<Rightarrow> 'v perf_counter_info option) \<Rightarrow>
   (rpc_address \<Rightarrow> 'v perf_counter_metric \<Rightarrow> 'r \<Rightarrow> failure + 'r) \<Rightarrow>
   node_desc \<Rightarrow> bool \<times> string \<Rightarrow> 'r \<Rightarrow> 'r flow" where
  "add_node decode f node res rows =
     (let node_addr = address node
      in if \<not> fst res then Returned rows
         else (case decode (snd res) of
                 None \<Rightarrow> Returned rows
               | Some info \<Rightarrow>
                   if info_result info \<noteq> ''OK'' then Returned rows
                   else (case add_counters (f node_addr) (info_counters info) rows of
                           Inl e \<Rightarrow> Failed e
                         | Inr rows' \<Rightarrow> Continue rows')))"

text \<open>
  The loop \<open>for (int i = 0; i < nodes.size(); ++i)\<close> reads \<open>nodes[i]\<close> and
  \<open>results[i]\<close>; \<open>call_remote_command\<close> has made \<open>results\<close> as long as \<open>nodes\<close>, so
  the loop runs over the pairs.
\<close>

fun add_nodes ::
  "(string \<Rightarrow> 'v perf_counter_info option) \<Rightarrow>
   (rpc_address \<Rightarrow> 'v perf_counter_metric \<Rightarrow> 'r \<Rightarrow> failure + 'r) \<Rightarrow>
   (node_desc \<times> bool \<times> string) list \<Rightarrow> 'r \<Rightarrow> failure + 'r" where
  "add_nodes decode f [] rows = Inr rows"
| "add_nodes decode f (nr # nrs) rows =
     (case add_node decode f (fst nr) (snd nr) rows of
        Failed e \<Rightarrow> Inl e
      | Returned rows' \<Rightarrow> Inr rows'
      | Continue rows' \<Rightarrow> add_nodes decode f nrs rows')"

subsection \<open>No application named: one row for each application\<close>

text \<open>
  \<open>app_partitions\<close> is a \<open>std::map\<close> from the application's id to its partition
  configurations, \<open>app_row_idx\<close> one from the id to the index of its row; both are
  association lists here. The first loop asks \<open>list_app\<close> for each application;
  \<open>None\<close> is the return on its error.
\<close>

fun collect_app_partitions ::
  "shell_context \<Rightarrow> app_info list \<Rightarrow> (int \<times> partition_configuration list) list \<Rightarrow>
     failure + (int \<times> partition_configuration list) list option" where
  "collect_app_partitions sc [] app_partitions = Inr (Some app_partitions)"
| "collect_app_partitions sc (app # apps) app_partitions =
     (case ddl_list_app sc (ai_app_name app) of
        (err, app_id, partition_count, partitions) \<Rightarrow>
          if err \<noteq> ERR_OK then Inr None
          else if app_id \<noteq> ai_app_id app then Inl Assertion_failure
          else if partition_count \<noteq> ai_partition_count app then Inl Assertion_failure
          else collect_app_partitions sc apps
                 (AList.update (ai_app_id app) partitions app_partitions))"

text \<open>The second loop names the rows and fills \<open>app_row_idx\<close>.\<close>

fun name_rows ::
  "app_info list \<Rightarrow> nat \<Rightarrow> 'v row_data list \<Rightarrow> (int \<times> int) list \<Rightarrow>
     failure + 'v row_data list \<times> (int \<times> int) list" where
  "name_rows [] idx rows app_row_idx = Inr (rows, app_row_idx)"
| "name_rows (app # apps) idx rows app_row_idx =
     (if idx < length rows
      then name_rows apps (idx + 1) (rows[idx := (rows ! idx)\<lparr>row_name := ai_app_name app\<rparr>])
             (AList.update (ai_app_id app) (int idx) app_row_idx)
      else Inl Out_of_bounds)"

text \<open>
  The body of the loop over the counters. The three locals of the parser's results are
  not initialised in the source; they are read only after the parser has returned
  \<open>true\<close>, when it has assigned all three. \<open>app_row_idx[app_id_x]\<close> is
  \<open>std::map::operator[]\<close>, which gives \<open>0\<close> for a missing key.
\<close>

definition add_counter_all ::
  "(int \<times> partition_configuration list) list \<Rightarrow> (int \<times> int) list \<Rightarrow> rpc_address \<Rightarrow>
   'v::plus perf_counter_metric \<Rightarrow> 'v row_data list \<Rightarrow> failure + 'v row_data list" where
  "add_counter_all app_partitions app_row_idx node_addr m rows =
     (case parse_app_pegasus_perf_counter_name (m_name m) 0 0 [] of
        (parse_ret, app_id_x, partition_index_x, counter_name) \<Rightarrow>
          if \<not> parse_ret then Inl Assertion_failure
          else (case map_of app_partitions app_id_x of
                  None \<Rightarrow> Inr rows
                | Some partitions \<Rightarrow>
                    (case vec_at partitions partition_index_x of
                       None \<Rightarrow> Inl Out_of_bounds
                     | Some pc \<Rightarrow>
                         if primary pc \<noteq> node_addr then Inr rows
                         else (let idx = (case map_of app_row_idx app_id_x of
                                            None \<Rightarrow> 0
                                          | Some i \<Rightarrow> i)
                               in case vec_at rows idx of
                                    None \<Rightarrow> Inl Out_of_bounds
                                  | Some row \<Rightarrow>
                                      Inr (rows[nat idx :=
                                                  snd (update_app_pegasus_perf_counter row
                                                         counter_name (m_value m))])))))"

definition get_app_stat_all ::
  "shell_context \<Rightarrow> (string \<Rightarrow> 'v perf_counter_info option) \<Rightarrow> app_info list \<Rightarrow>
   node_desc list \<Rightarrow> (bool \<times> string) list \<Rightarrow> 'v::{zero,plus} row_data list \<Rightarrow>
     failure + bool \<times> 'v row_data list" where
  "get_app_stat_all sc decode apps nodes results rows =
     (case collect_app_partitions sc apps [] of
        Inl e \<Rightarrow> Inl e
      | Inr None \<Rightarrow> Inr (True, rows)
      | Inr (Some app_partitions) \<Rightarrow>
          (case name_rows apps 0 (resize (length app_partitions) new_row_data rows) [] of
             Inl e \<Rightarrow> Inl e
           | Inr (rows1, app_row_idx) \<Rightarrow>
               (case add_nodes decode (add_counter_all app_partitions app_row_idx)
                       (zip nodes results) rows1 of
                  Inl e \<Rightarrow> Inl e
                | Inr rows2 \<Rightarrow> Inr (True, rows2))))"

subsection \<open>One application named: one row for each of its partitions\<close>

text \<open>\<open>boost::lexical_cast<std::string>(i)\<close> and \<open>%d\<close> of \<open>sprintf\<close>: the decimal numeral.\<close>

fun decimal_digits :: "nat \<Rightarrow> string" where
  "decimal_digits n =
     (if n < 10 then [''0123456789'' ! n]
      else decimal_digits (n div 10) @ [''0123456789'' ! (n mod 10)])"

definition to_decimal :: "int \<Rightarrow> string" where
  "to_decimal i = (if i < 0 then CHR ''-'' # decimal_digits (nat (- i)) else decimal_digits (nat i))"

definition name_partition_rows :: "nat \<Rightarrow> 'v row_data list \<Rightarrow> 'v row_data list" where
  "name_partition_rows n rows =
     fold (\<lambda>i rs. rs[i := (rs ! i)\<lparr>row_name := to_decimal (int i)\<rparr>]) [0..<n] rows"

definition add_counter_one ::
  "int \<Rightarrow> int \<Rightarrow> partition_configuration list \<Rightarrow> rpc_address \<Rightarrow>
   'v::plus perf_counter_metric \<Rightarrow> 'v row_data list \<Rightarrow> failure + 'v row_data list" where
  "add_counter_one app_id partition_count partitions node_addr m rows =
     (case parse_app_pegasus_perf_counter_name (m_name m) 0 0 [] of
        (parse_ret, app_id_x, partition_index_x, counter_name) \<Rightarrow>
          if \<not> parse_ret then Inl Assertion_failure
          else if app_id_x \<noteq> app_id then Inl Assertion_failure
          else if \<not> partition_index_x < partition_count then Inl Assertion_failure
          else (case vec_at partitions partition_index_x of
                  None \<Rightarrow> Inl Out_of_bounds
                | Some pc \<Rightarrow>
                    if primary pc \<noteq> node_addr then Inr rows
                    else (case vec_at rows partition_index_x of
                            None \<Rightarrow> Inl Out_of_bounds
                          | Some row \<Rightarrow>
                              Inr (rows[nat partition_index_x :=
                                          snd (update_app_pegasus_perf_counter row
                                                 counter_name (m_value m))]))))"

definition get_app_stat_one ::
  "shell_context \<Rightarrow> (string \<Rightarrow> 'v perf_counter_info option) \<Rightarrow> string \<Rightarrow> app_info \<Rightarrow>
   node_desc list \<Rightarrow> (bool \<times> string) list \<Rightarrow> 'v::{zero,plus} row_data list \<Rightarrow>
     failure + bool \<times> 'v row_data list" where
  "get_app_stat_one sc decode app_name app nodes results rows =
     (if ai_partition_count app < 0 then Inl Length_error
      else (let rows1 = name_partition_rows (nat (ai_partition_count app))
                          (resize (nat (ai_partition_count app)) new_row_data rows)
            in case ddl_list_app sc app_name of
                 (err, app_id, partition_count, partitions) \<Rightarrow>
                   if err \<noteq> ERR_OK then Inr (True, rows1)
                   else if app_id \<noteq> ai_app_id app then Inl Assertion_failure
                   else if partition_count \<noteq> ai_partition_count app then Inl Assertion_failure
                   else (case add_nodes decode
                                 (add_counter_one app_id partition_count partitions)
                                 (zip nodes results) rows1 of
                           Inl e \<Rightarrow> Inl e
                         | Inr rows2 \<Rightarrow> Inr (True, rows2))))"

subsection \<open>The whole function\<close>

text \<open>The argument of the \<open>perf-counters\<close> command, a regular expression built by \<open>sprintf\<close>.\<close>

definition backslash :: char where
  "backslash = CHR 0x5C"

definition counters_pattern :: "int option \<Rightarrow> string" where
  "counters_pattern app =
     ''.*'' @ [backslash] @ ''*app'' @ [backslash] @ ''.pegasus'' @ [backslash] @ ''*.*@'' @
     (case app of
        None \<Rightarrow> ''.*''
      | Some app_id \<Rightarrow> to_decimal app_id @ [backslash] @ ''..*'')"

text \<open>
  \<open>get_app_stat\<close> returns \<open>true\<close> on every path; the messages it logs are not part of
  the model. \<open>es\<close> is the schedule of the fan-out; \<open>None\<close> is a fan-out that has not
  returned at the end of \<open>es\<close>.
\<close>

definition get_app_stat ::
  "fan_event list \<Rightarrow> (string \<Rightarrow> 'v perf_counter_info option) \<Rightarrow>
   shell_context \<Rightarrow> string \<Rightarrow> 'v::{zero,plus} row_data list \<Rightarrow>
     (failure + bool \<times> 'v row_data list) option" where
  "get_app_stat es decode sc app_name rows =
     (case ddl_list_apps sc of
        (err, apps) \<Rightarrow>
          if err \<noteq> ERR_OK then Some (Inr (True, rows))
          else (let app_found = (if app_name \<noteq> [] then List.find (\<lambda>app. ai_app_name app = app_name) apps
                                 else None)
                in if app_name \<noteq> [] \<and> app_found = None then Some (Inr (True, rows))
                   else (case fill_nodes sc ''replica-server'' [] of
                           (filled, nodes) \<Rightarrow>
                             if \<not> filled then Some (Inr (True, rows))
                             else (let c = \<lparr>cmd = ''perf-counters'',
                                             arguments = [counters_pattern (map_option ai_app_id app_found)]\<rparr>
                                   in case call_remote_command es sc nodes c [] of
                                        None \<Rightarrow> None
                                      | Some results \<Rightarrow>
                                          (case app_found of
                                             None \<Rightarrow>
                                               Some (get_app_stat_all sc decode apps nodes results rows)
                                           | Some app \<Rightarrow>
                                               Some (get_app_stat_one sc decode app_name app nodes
                                                       results rows))))))"

section \<open>The scan pipeline: \<open>scan_data_next\<close>\<close>

datatype scan_data_operator = SCAN_COPY | SCAN_CLEAR | SCAN_COUNT | SCAN_GEN_GEO

text \<open>
  The error codes of the client: the pipeline tells \<open>PERR_OK\<close> and
  \<open>PERR_SCAN_COMPLETE\<close> from each other and from every other code.
\<close>

datatype perr = PERR_OK | PERR_SCAN_COMPLETE | PERR_OTHER int

text \<open>
  The fields of \<open>scan_data_context\<close>, but for the four pointers: what \<open>scanner\<close>,
  \<open>client\<close>, \<open>geoclient\<close> and \<open>error_occurred\<close> point to is part of the state below. A
  \<open>rocksdb::HistogramImpl\<close> is modelled by the list of the values added to it.
\<close>

record scan_data_context =
  op :: scan_data_operator
  split_id :: int
  max_batch_count :: int
  timeout_ms :: int
  split_rows :: int
  split_request_count :: int
  split_completed :: bool
  stat_size :: bool
  hash_key_size_histogram :: "int list"
  sort_key_size_histogram :: "int list"
  value_size_histogram :: "int list"
  row_size_histogram :: "int list"
  top_count :: int
  top_rows :: top_container

text \<open>The constructor.\<close>

definition new_scan_data_context ::
  "scan_data_operator \<Rightarrow> int \<Rightarrow> int \<Rightarrow> int \<Rightarrow> bool \<Rightarrow> int \<Rightarrow> scan_data_context" where
  "new_scan_data_context op' split_id' max_batch_count' timeout_ms' stat_size' top_count' =
     \<lparr>op = op', split_id = split_id', max_batch_count = max_batch_count',
      timeout_ms = timeout_ms', split_rows = 0, split_request_count = 0,
      split_completed = False, stat_size = stat_size',
      hash_key_size_histogram = [], sort_key_size_histogram = [],
      value_size_histogram = [], row_size_histogram = [],
      top_count = top_count', top_rows = new_top_container top_count'\<rparr>"

text \<open>
  The asynchronous calls the pipeline makes, with their arguments: \<open>scanner->async_next\<close>,
  \<open>client->async_set\<close>, \<open>client->async_del\<close> and \<open>geoclient->async_set\<close>; the last
  argument of the three row operations is the timeout.
\<close>

text \<open>A row: the hash key, the sort key and the value.\<close>

type_synonym row = "string \<times> string \<times> string"

datatype row_call = Async_set | Async_del | Geo_async_set

datatype async_call = Scanner_async_next | Row_call row_call row int

text \<open>
  Callbacks run on the threads of the client, several at a time, and all of them work on
  the same context through its atomic fields. A thread is modelled by the point of the
  code it has reached, and one step of a thread is one access to the shared state: a load,
  a store, an increment or decrement, an exchange of an atomic, one output to the error
  stream, one call that hands an operation to a client, one \<open>Add\<close> to a histogram, one
  \<open>push\<close> to the container.

  \<open>scan_data_next\<close> is called from outside, and from inside the callbacks, where the
  decrement of \<open>split_request_count\<close> follows: the loop's points carry what follows it.
\<close>

datatype cont = To_caller | To_decrement

datatype pc =
    Load_completed cont
  | Load_error cont
  | Load_request_count cont
  | Incr_request_count cont
  | Call_async_next cont
  | Incr_for_row_call row_call row
  | Call_row_call row_call row
  | Incr_rows_counted row
  | Add_hash_key_size row
  | Add_sort_key_size row
  | Add_value_size row
  | Add_row_size row
  | Push_top_rows row
  | Incr_rows_applied
  | Store_completed
  | Exchange_completed string perr
  | Print_error string perr
  | Store_error
  | Decr_request_count
  | Finished
  | Undefined_behaviour

text \<open>
  The state: the context, the flag \<open>error_occurred\<close> that all splits of a job share, the
  lines written to the error stream (which operation failed, the split's id, the error
  code), the asynchronous calls made so far, each with whether its callback has been
  started, and the threads.
\<close>

record world =
  ctx :: scan_data_context
  error_occurred :: bool
  stderr :: "(string \<times> int \<times> perr) list"
  calls :: "(async_call \<times> bool) list"
  threads :: "pc list"

text \<open>The exit of the loop of \<open>scan_data_next\<close>.\<close>

definition leave :: "cont \<Rightarrow> pc" where
  "leave k = (case k of To_caller \<Rightarrow> Finished | To_decrement \<Rightarrow> Decr_request_count)"

definition row_size_of :: "row \<Rightarrow> int" where
  "row_size_of r =
     int (length (fst r)) + int (length (fst (snd r))) + int (length (snd (snd r)))"

text \<open>One step of a thread: the point it reaches and the new state.\<close>

fun exec :: "pc \<Rightarrow> world \<Rightarrow> pc \<times> world" where
  "exec (Load_completed k) w =
     (if split_completed (ctx w) then leave k else Load_error k, w)"
| "exec (Load_error k) w =
     (if error_occurred w then leave k else Load_request_count k, w)"
| "exec (Load_request_count k) w =
     (if split_request_count (ctx w) < max_batch_count (ctx w) then Incr_request_count k
      else leave k, w)"
| "exec (Incr_request_count k) w =
     (Call_async_next k,
      w\<lparr>ctx := (ctx w)\<lparr>split_request_count := split_request_count (ctx w) + 1\<rparr>\<rparr>)"
| "exec (Call_async_next k) w =
     (Load_completed k, w\<lparr>calls := calls w @ [(Scanner_async_next, False)]\<rparr>)"
| "exec (Incr_for_row_call c r) w =
     (Call_row_call c r,
      w\<lparr>ctx := (ctx w)\<lparr>split_request_count := split_request_count (ctx w) + 1\<rparr>\<rparr>)"
| "exec (Call_row_call c r) w =
     (Decr_request_count,
      w\<lparr>calls := calls w @ [(Row_call c r (timeout_ms (ctx w)), False)]\<rparr>)"
| "exec (Incr_rows_counted r) w =
     (if stat_size (ctx w) then Add_hash_key_size r else Load_completed To_decrement,
      w\<lparr>ctx := (ctx w)\<lparr>split_rows := split_rows (ctx w) + 1\<rparr>\<rparr>)"
| "exec (Add_hash_key_size r) w =
     (Add_sort_key_size r,
      w\<lparr>ctx := (ctx w)\<lparr>hash_key_size_histogram :=
             hash_key_size_histogram (ctx w) @ [int (length (fst r))]\<rparr>\<rparr>)"
| "exec (Add_sort_key_size r) w =
     (Add_value_size r,
      w\<lparr>ctx := (ctx w)\<lparr>sort_key_size_histogram :=
             sort_key_size_histogram (ctx w) @ [int (length (fst (snd r)))]\<rparr>\<rparr>)"
| "exec (Add_value_size r) w =
     (Add_row_size r,
      w\<lparr>ctx := (ctx w)\<lparr>value_size_histogram :=
             value_size_histogram (ctx w) @ [int (length (snd (snd r)))]\<rparr>\<rparr>)"
| "exec (Add_row_size r) w =
     (if top_count (ctx w) > 0 then Push_top_rows r else Load_completed To_decrement,
      w\<lparr>ctx := (ctx w)\<lparr>row_size_histogram :=
             row_size_histogram (ctx w) @ [row_size_of r]\<rparr>\<rparr>)"
| "exec (Push_top_rows r) w =
     (case push (fst r) (fst (snd r)) (row_size_of r) (top_rows (ctx w)) of
        None \<Rightarrow> (Undefined_behaviour, w)
      | Some t \<Rightarrow> (Load_completed To_decrement, w\<lparr>ctx := (ctx w)\<lparr>top_rows := t\<rparr>\<rparr>))"
| "exec Incr_rows_applied w =
     (Load_completed To_decrement,
      w\<lparr>ctx := (ctx w)\<lparr>split_rows := split_rows (ctx w) + 1\<rparr>\<rparr>)"
| "exec Store_completed w =
     (Decr_request_count, w\<lparr>ctx := (ctx w)\<lparr>split_completed := True\<rparr>\<rparr>)"
| "exec (Exchange_completed what err) w =
     (if \<not> split_completed (ctx w) then Print_error what err else Decr_request_count,
      w\<lparr>ctx := (ctx w)\<lparr>split_completed := True\<rparr>\<rparr>)"
| "exec (Print_error what err) w =
     (Store_error, w\<lparr>stderr := stderr w @ [(what, split_id (ctx w), err)]\<rparr>)"
| "exec Store_error w =
     (Decr_request_count, w\<lparr>error_occurred := True\<rparr>)"
| "exec Decr_request_count w =
     (Finished,
      w\<lparr>ctx := (ctx w)\<lparr>split_request_count := split_request_count (ctx w) - 1\<rparr>\<rparr>)"
| "exec Finished w = (Finished, w)"
| "exec Undefined_behaviour w = (Undefined_behaviour, w)"

text \<open>
  Where a callback starts. The callback of \<open>async_next\<close> gets the code \<open>ret\<close> and the
  row, and chooses its branch by \<open>ret\<close> and by \<open>op\<close>; the \<open>default\<close> branch of the
  \<open>switch\<close> is for no value of the enumeration. The callback of a row operation gets the
  code only.
\<close>

definition async_next_callback :: "scan_data_context \<Rightarrow> perr \<Rightarrow> row \<Rightarrow> pc" where
  "async_next_callback c ret r =
     (if ret = PERR_OK then
        (case op c of
           SCAN_COPY \<Rightarrow> Incr_for_row_call Async_set r
         | SCAN_CLEAR \<Rightarrow> Incr_for_row_call Async_del r
         | SCAN_COUNT \<Rightarrow> Incr_rows_counted r
         | SCAN_GEN_GEO \<Rightarrow> Incr_for_row_call Geo_async_set r)
      else if ret = PERR_SCAN_COMPLETE then Store_completed
      else Exchange_completed ''scan next'' ret)"

definition row_call_callback :: "row_call \<Rightarrow> perr \<Rightarrow> pc" where
  "row_call_callback c err =
     (if err \<noteq> PERR_OK
      then Exchange_completed (case c of Async_del \<Rightarrow> ''async del'' | _ \<Rightarrow> ''async set'') err
      else Incr_rows_applied)"

definition callback_of :: "scan_data_context \<Rightarrow> async_call \<Rightarrow> perr \<Rightarrow> row \<Rightarrow> pc" where
  "callback_of c a ret r =
     (case a of
        Scanner_async_next \<Rightarrow> async_next_callback c ret r
      | Row_call k r' t \<Rightarrow> row_call_callback k ret)"

text \<open>
  What happens next is chosen from outside: thread \<open>t\<close> takes its next step; the call
  number \<open>i\<close> completes with a code (and a row, for \<open>async_next\<close>), which starts its
  callback on a new thread; or another split of the job, which shares \<open>error_occurred\<close>,
  sets that flag. \<open>None\<close>: the event is not possible in the state.
\<close>

datatype event = Run nat | Complete nat perr row | Other_split_fails

definition running :: "pc \<Rightarrow> bool" where
  "running p = (p \<noteq> Finished \<and> p \<noteq> Undefined_behaviour)"

definition step :: "world \<Rightarrow> event \<Rightarrow> world option" where
  "step w e =
     (case e of
        Run t \<Rightarrow>
          if t < length (threads w) \<and> running (threads w ! t)
          then (case exec (threads w ! t) w of
                  (p, w') \<Rightarrow> Some (w'\<lparr>threads := (threads w')[t := p]\<rparr>))
          else None
      | Complete i ret r \<Rightarrow>
          if i < length (calls w) \<and> \<not> snd (calls w ! i)
          then Some (w\<lparr>calls := (calls w)[i := (fst (calls w ! i), True)],
                       threads := threads w @ [callback_of (ctx w) (fst (calls w ! i)) ret r]\<rparr>)
          else None
      | Other_split_fails \<Rightarrow> Some (w\<lparr>error_occurred := True\<rparr>))"

fun run_with :: "(world \<Rightarrow> event \<Rightarrow> world option) \<Rightarrow> world \<Rightarrow> event list \<Rightarrow> world option" where
  "run_with f w [] = Some w"
| "run_with f w (e # es) =
     (case f w e of
        None \<Rightarrow> None
      | Some w' \<Rightarrow> run_with f w' es)"

definition run :: "world \<Rightarrow> event list \<Rightarrow> world option" where
  "run = run_with step"

text \<open>
  A split starts with a new context and the first call of \<open>scan_data_next\<close> from
  outside; other splits of the job may have set \<open>error_occurred\<close> before.
\<close>

definition start :: "scan_data_context \<Rightarrow> bool \<Rightarrow> world" where
  "start c e =
     \<lparr>ctx = c, error_occurred = e, stderr = [], calls = [], threads = [Load_completed To_caller]\<rparr>"

section \<open>Predicates on the states of the pipeline\<close>

text \<open>
  A thread is about to print when its exchange of \<open>split_completed\<close> has returned
  \<open>false\<close> and its \<open>fprintf\<close> has not run yet.
\<close>

definition about_to_print :: "pc \<Rightarrow> bool" where
  "about_to_print p = (case p of Print_error what err \<Rightarrow> True | _ \<Rightarrow> False)"

text \<open>
  At most one line is printed or about to be printed, only after \<open>split_completed\<close>
  was set, and whoever printed sets \<open>error_occurred\<close> next.
\<close>

definition one_error_line :: "world \<Rightarrow> bool" where
  "one_error_line w \<longleftrightarrow>
     length (stderr w) \<le> 1 \<and>
     (\<forall>t<length (threads w). about_to_print (threads w ! t) \<longrightarrow>
        stderr w = [] \<and>
        (\<forall>t'<length (threads w). about_to_print (threads w ! t') \<longrightarrow> t' = t)) \<and>
     (stderr w \<noteq> [] \<or> (\<exists>t<length (threads w). about_to_print (threads w ! t)) \<longrightarrow>
        split_completed (ctx w)) \<and>
     (stderr w \<noteq> [] \<longrightarrow>
        error_occurred w \<or> (\<exists>t<length (threads w). threads w ! t = Store_error))"

text \<open>
  The asynchronous operations that are outstanding: called, and the callback not yet
  started.
\<close>

definition outstanding :: "world \<Rightarrow> int" where
  "outstanding w = int (length (filter (\<lambda>a. \<not> snd a) (calls w)))"

text \<open>
  The count is bounded through an account of who has incremented it. A chain of
  \<open>scan_data_next\<close> that was entered from a callback owns one increment, the one its
  callback was called with (the first call, from the caller of the scan, owns none).
\<close>

definition own :: "cont \<Rightarrow> int" where
  "own k = (case k of To_caller \<Rightarrow> 0 | To_decrement \<Rightarrow> 1)"

text \<open>
  The increments a thread holds at a point of the code: those it has made, or was called
  with, and has neither handed to a call nor taken back by the decrement.
\<close>

definition held :: "pc \<Rightarrow> int" where
  "held p =
     (case p of
        Load_completed k \<Rightarrow> own k
      | Load_error k \<Rightarrow> own k
      | Load_request_count k \<Rightarrow> own k
      | Incr_request_count k \<Rightarrow> own k
      | Call_async_next k \<Rightarrow> own k + 1
      | Call_row_call c r \<Rightarrow> 2
      | Finished \<Rightarrow> 0
      | _ \<Rightarrow> 1)"

text \<open>
  The increments a thread will still make without a further test of the count, and the one
  the callback of the \<open>async_next\<close> it is about to call may make.
\<close>

definition committed :: "pc \<Rightarrow> int" where
  "committed p =
     (case p of
        Incr_request_count k \<Rightarrow> 2
      | Call_async_next k \<Rightarrow> 1
      | Incr_for_row_call c r \<Rightarrow> 1
      | _ \<Rightarrow> 0)"

text \<open>The thread of the first call of \<open>scan_data_next\<close>, while it is in the loop.\<close>

definition outside :: "pc \<Rightarrow> int" where
  "outside p =
     (case p of
        Load_completed k \<Rightarrow> 1 - own k
      | Load_error k \<Rightarrow> 1 - own k
      | Load_request_count k \<Rightarrow> 1 - own k
      | Incr_request_count k \<Rightarrow> 1 - own k
      | Call_async_next k \<Rightarrow> 1 - own k
      | _ \<Rightarrow> 0)"

text \<open>The operation a thread will still call without a further test of the count.\<close>

definition will_call :: "pc \<Rightarrow> int" where
  "will_call p =
     (case p of
        Incr_request_count k \<Rightarrow> 1
      | Call_async_next k \<Rightarrow> 1
      | Incr_for_row_call c r \<Rightarrow> 1
      | Call_row_call c r \<Rightarrow> 1
      | _ \<Rightarrow> 0)"

text \<open>A call that has not completed carries one increment.\<close>

definition pending :: "async_call \<times> bool \<Rightarrow> int" where
  "pending a = (if snd a then 0 else 1)"

definition pending_next :: "async_call \<times> bool \<Rightarrow> int" where
  "pending_next a = (if \<not> snd a \<and> fst a = Scanner_async_next then 1 else 0)"

text \<open>
  The account: the count is the number of increments carried by calls and held by
  threads; at most one thread is the first call; the outstanding calls, with every call
  that will be made without a further test, are at most \<open>m\<close>; and the count, with every
  increment that will be made without a further test, stays at or below \<open>3 * m - 1\<close>
  (nothing is called, and the count stays 0, when \<open>m\<close> is not positive).
\<close>

definition ledger :: "int \<Rightarrow> world \<Rightarrow> bool" where
  "ledger m w \<longleftrightarrow>
     max_batch_count (ctx w) = m \<and>
     split_request_count (ctx w) =
       sum_list (map pending (calls w)) + sum_list (map held (threads w)) \<and>
     sum_list (map outside (threads w)) \<le> 1 \<and>
     sum_list (map pending (calls w)) + sum_list (map will_call (threads w)) \<le> max 0 m \<and>
     split_request_count (ctx w) + sum_list (map committed (threads w)) +
       sum_list (map pending_next (calls w)) \<le> max 0 (3 * m - 1)"

text \<open>Every row operation called so far carries the timeout \<open>tmo\<close>.\<close>

definition timeouts_kept :: "int \<Rightarrow> world \<Rightarrow> bool" where
  "timeouts_kept tmo w \<longleftrightarrow>
     timeout_ms (ctx w) = tmo \<and>
     (\<forall>a\<in>set (calls w). \<forall>k r t. fst a = Row_call k r t \<longrightarrow> t = tmo)"

section \<open>Properties of the counter-name parser\<close>

lemma find_last_of_None: "find_last_of s c = None \<longleftrightarrow> c \<notin> set s"
  by (induction s) (auto split: option.splits)

lemma find_last_of_less: "find_last_of s c = Some i \<Longrightarrow> i < length s"
  by (induction s arbitrary: i) (auto split: option.splits if_splits)

lemma size_sub_wrap:
  assumes "i < j" "j < 2 ^ 64"
  shows "size_sub i j = 2 ^ 64 - (j - i)"
proof -
  have "(int i - int j) mod 2 ^ 64 = (int i - int j + 2 ^ 64) mod 2 ^ 64"
    by simp
  also have "\<dots> = int i - int j + 2 ^ 64"
    using assms by (intro mod_pos_pos_trivial) auto
  finally have "(int i - int j) mod 2 ^ 64 = int (2 ^ 64 - (j - i))"
    using assms by (simp add: of_nat_diff)
  then show ?thesis
    unfolding size_sub_def by (metis nat_int)
qed

lemma size_sub_nowrap: "b \<le> a \<Longrightarrow> a < 2 ^ 64 \<Longrightarrow> size_sub a b = a - b"
  unfolding size_sub_def
  by (simp add: of_nat_diff [symmetric] nat_mod_distrib del: of_nat_diff)

lemma substr_wrap:
  assumes "i < j" "j < length s" "length s < 2 ^ 64"
  shows "substr s (j + 1) (size_sub (size_sub i j) 1) = drop (j + 1) s"
proof -
  have j: "j < 2 ^ 64" using assms by simp
  have 1: "size_sub i j = 2 ^ 64 - (j - i)"
    using assms(1) j by (rule size_sub_wrap)
  have 2: "size_sub (2 ^ 64 - (j - i)) 1 = 2 ^ 64 - (j - i) - 1"
    using assms j by (intro size_sub_nowrap) auto
  have 3: "size_sub (size_sub i j) 1 = 2 ^ 64 - (j - i) - 1"
    by (simp only: 1 2)
  have "length (drop (j + 1) s) \<le> 2 ^ 64 - (j - i) - 1"
    using assms by simp
  then show ?thesis
    unfolding substr_def 3 by (rule take_all)
qed

lemma parse_star_after_at:
  assumes at: "find_last_of s (CHR ''@'') = Some i" and star: "find_last_of s (CHR ''*'') = Some j"
    and "i < j" and len: "length s < 2 ^ 64"
    and two: "sscanf_d_dot_d (c_str (drop (i + 1) s)) a p = (2, x, y)"
  shows "parse_app_pegasus_perf_counter_name s a p c = (True, x, y, drop (j + 1) s)"
proof -
  have "j < length s" using star by (rule find_last_of_less)
  then have "substr s (j + 1) (size_sub (size_sub i j) 1) = drop (j + 1) s"
    using \<open>i < j\<close> len by (intro substr_wrap)
  then show ?thesis
    using at star two by (simp add: parse_app_pegasus_perf_counter_name_def)
qed

text \<open>
  Claim C2 says that \<open>*get_qps*rdb@7.3\<close> parses to application 7, partition 3 and the
  metric name \<open>get_qps\<close>. The parser takes the metric name between the last \<open>*\<close> and
  the last \<open>@\<close>: for this name it is \<open>rdb\<close>, so the result the claim gives is not the
  parser's.
\<close>

theorem parse_example_metric_name_counterexample:
  "parse_app_pegasus_perf_counter_name ''*get_qps*rdb@7.3'' 0 0 [] \<noteq> (True, 7, 3, ''get_qps'')"
  by code_simp

text \<open>
  Claim C2, amended: \<open>*get_qps*rdb@7.3\<close> parses, whatever the three variables held before,
  to application 7, partition 3 and the metric name \<open>rdb\<close>; and a name with no \<open>@\<close> or
  with no \<open>*\<close> does not parse.
\<close>

theorem parse_example_and_missing_delimiter:
  "parse_app_pegasus_perf_counter_name ''*get_qps*rdb@7.3'' a p c = (True, 7, 3, ''rdb'') \<and>
   (CHR ''@'' \<notin> set s \<or> CHR ''*'' \<notin> set s \<longrightarrow>
      \<not> fst (parse_app_pegasus_perf_counter_name s a p c))"
proof
  show "parse_app_pegasus_perf_counter_name ''*get_qps*rdb@7.3'' a p c = (True, 7, 3, ''rdb'')"
    by code_simp
  show "CHR ''@'' \<notin> set s \<or> CHR ''*'' \<notin> set s \<longrightarrow>
      \<not> fst (parse_app_pegasus_perf_counter_name s a p c)"
    by (auto simp add: parse_app_pegasus_perf_counter_name_def find_last_of_None [symmetric]
        split: option.splits prod.splits)
qed

text \<open>The amended claim C2 at a name with no \<open>*\<close> and at a name with no \<open>@\<close>.\<close>

theorem parse_example_and_missing_delimiter_witness:
  "parse_app_pegasus_perf_counter_name ''*get_qps*rdb@7.3'' 0 0 [] = (True, 7, 3, ''rdb'') \<and>
   CHR ''*'' \<notin> set ''get_qps@7.3'' \<and>
   \<not> fst (parse_app_pegasus_perf_counter_name ''get_qps@7.3'' 0 0 []) \<and>
   CHR ''@'' \<notin> set ''*get_qps*rdb7.3'' \<and>
   \<not> fst (parse_app_pegasus_perf_counter_name ''*get_qps*rdb7.3'' 0 0 [])"
proof -
  have 1: "CHR ''*'' \<notin> set ''get_qps@7.3''" and 2: "CHR ''@'' \<notin> set ''*get_qps*rdb7.3''"
    by code_simp+
  from 1 parse_example_and_missing_delimiter [of 0 0 "[]" "''get_qps@7.3''"]
  have 3: "parse_app_pegasus_perf_counter_name ''*get_qps*rdb@7.3'' 0 0 [] = (True, 7, 3, ''rdb'')"
    and 4: "\<not> fst (parse_app_pegasus_perf_counter_name ''get_qps@7.3'' 0 0 [])"
    by blast+
  from 2 parse_example_and_missing_delimiter [of 0 0 "[]" "''*get_qps*rdb7.3''"]
  have 5: "\<not> fst (parse_app_pegasus_perf_counter_name ''*get_qps*rdb7.3'' 0 0 [])"
    by blast
  from 1 2 3 4 5 show ?thesis by blast
qed

text \<open>
  Claim C5 says that parsing fails whenever the last \<open>*\<close> comes after the last \<open>@\<close>. In
  \<open>a@1.2*x\<close> the last \<open>@\<close> is at index 1 and the last \<open>*\<close> at index 5, the text after
  the \<open>@\<close> starts with \<open>1.2\<close>, and the parser returns \<open>true\<close>: the length
  \<open>find - find2 - 1\<close> wraps around and \<open>substr\<close> gives the rest of the name.
\<close>

theorem parse_star_after_at_counterexample:
  "find_last_of ''a@1.2*x'' (CHR ''@'') = Some 1 \<and>
   find_last_of ''a@1.2*x'' (CHR ''*'') = Some 5 \<and>
   parse_app_pegasus_perf_counter_name ''a@1.2*x'' 0 0 [] = (True, 1, 2, ''x'')"
proof -
  have at: "find_last_of ''a@1.2*x'' (CHR ''@'') = Some 1"
    and star: "find_last_of ''a@1.2*x'' (CHR ''*'') = Some 5"
    and two: "sscanf_d_dot_d (c_str (drop (1 + 1) ''a@1.2*x'')) 0 0 = (2, 1, 2)"
    by code_simp+
  have "parse_app_pegasus_perf_counter_name ''a@1.2*x'' 0 0 [] = (True, 1, 2, drop (5 + 1) ''a@1.2*x'')"
    using at star _ _ two by (rule parse_star_after_at) simp_all
  then show ?thesis using at star by simp
qed

text \<open>
  Claim C5, amended: the parser fails exactly when the name has no \<open>@\<close>, or has no
  \<open>*\<close>, or \<open>sscanf\<close> with \<open>%d.%d\<close> does not read two integers at the start of the text
  after the last \<open>@\<close>. The order of the two delimiters is not checked: when the last
  \<open>*\<close> comes after the last \<open>@\<close> and the two integers are read, the parser succeeds
  and the metric name is the text after the last \<open>*\<close>.
\<close>

theorem parse_fails_exactly:
  "(fst (parse_app_pegasus_perf_counter_name s a p c) \<longleftrightarrow>
      CHR ''@'' \<in> set s \<and> CHR ''*'' \<in> set s \<and>
      fst (sscanf_d_dot_d (c_str (drop (the (find_last_of s (CHR ''@'')) + 1) s)) a p) = 2) \<and>
   (find_last_of s (CHR ''@'') = Some i \<and> find_last_of s (CHR ''*'') = Some j \<and> i < j \<and>
    length s < 2 ^ 64 \<and> sscanf_d_dot_d (c_str (drop (i + 1) s)) a p = (2, x, y) \<longrightarrow>
      parse_app_pegasus_perf_counter_name s a p c = (True, x, y, drop (j + 1) s))"
proof
  show "fst (parse_app_pegasus_perf_counter_name s a p c) \<longleftrightarrow>
      CHR ''@'' \<in> set s \<and> CHR ''*'' \<in> set s \<and>
      fst (sscanf_d_dot_d (c_str (drop (the (find_last_of s (CHR ''@'')) + 1) s)) a p) = 2"
    using find_last_of_None [of s "CHR ''@''"] find_last_of_None [of s "CHR ''*''"]
    by (auto simp add: parse_app_pegasus_perf_counter_name_def split: option.splits prod.splits)
  show "find_last_of s (CHR ''@'') = Some i \<and> find_last_of s (CHR ''*'') = Some j \<and> i < j \<and>
    length s < 2 ^ 64 \<and> sscanf_d_dot_d (c_str (drop (i + 1) s)) a p = (2, x, y) \<longrightarrow>
      parse_app_pegasus_perf_counter_name s a p c = (True, x, y, drop (j + 1) s)"
    using parse_star_after_at by blast
qed

text \<open>The amended claim C5 at \<open>a@1.2*x\<close>.\<close>

theorem parse_fails_exactly_witness:
  "fst (parse_app_pegasus_perf_counter_name ''a@1.2*x'' 0 0 []) \<and>
   find_last_of ''a@1.2*x'' (CHR ''@'') = Some 1 \<and>
   find_last_of ''a@1.2*x'' (CHR ''*'') = Some 5 \<and> (1::nat) < 5 \<and>
   sscanf_d_dot_d (c_str (drop (1 + 1) ''a@1.2*x'')) 0 0 = (2, 1, 2) \<and>
   parse_app_pegasus_perf_counter_name ''a@1.2*x'' 0 0 [] = (True, 1, 2, drop (5 + 1) ''a@1.2*x'')"
proof -
  have at: "find_last_of ''a@1.2*x'' (CHR ''@'') = Some 1"
    and star: "find_last_of ''a@1.2*x'' (CHR ''*'') = Some 5"
    and two: "sscanf_d_dot_d (c_str (drop (1 + 1) ''a@1.2*x'')) 0 0 = (2, 1, 2)"
    by code_simp+
  have less: "(1::nat) < 5" and len: "length ''a@1.2*x'' < 2 ^ 64"
    by simp_all
  from parse_fails_exactly [of "''a@1.2*x''" 0 0 "[]" 1 5 1 2] at star less len two
  have res: "parse_app_pegasus_perf_counter_name ''a@1.2*x'' 0 0 [] = (True, 1, 2, drop (5 + 1) ''a@1.2*x'')"
    by blast
  then have "fst (parse_app_pegasus_perf_counter_name ''a@1.2*x'' 0 0 [])"
    by simp
  with at star less two res show ?thesis by blast
qed

section \<open>Properties of the top-rows container\<close>

text \<open>
  Claim C1 says that the container keeps the \<open>K\<close> largest rows: when it is full a new row
  replaces the smallest one it holds, if the new row is larger. The queue's top is its
  largest row, so that is the row \<open>push\<close> compares with and replaces. With room
  for 2 rows and rows of sizes 10, 20 and 30 pushed in this order, the container ends with
  the rows of sizes 30 and 10: the row of size 20 is dropped while the smaller row of size 10 stays.
\<close>

theorem top_container_keeps_smaller_row:
  "Option.bind (Option.bind (push ''a'' ''x'' 10 (new_top_container 2)) (push ''b'' ''y'' 20))
     (push ''c'' ''z'' 30) =
   Some \<lparr>heap_count = 2,
         heap = [\<lparr>hash_key = ''c'', sort_key = ''z'', row_size = 30\<rparr>,
                 \<lparr>hash_key = ''a'', sort_key = ''x'', row_size = 10\<rparr>]\<rparr>"
  by (simp add: push_def new_top_container_def size_less_int_def)

text \<open>
  The number of rows held is as claim C1 says: a push into a container with capacity
  \<open>K > 0\<close> that holds \<open>n \<le> K\<close> rows leaves it with \<open>min K (n + 1)\<close> rows.
\<close>

lemma length_emplace: "length (emplace x xs) = Suc (length xs)"
  by (induction xs) simp_all

lemma push_length:
  assumes "0 < heap_count c" and "heap_count c < 2 ^ 64"
    and "int (length (heap c)) \<le> heap_count c"
  shows "\<exists>c'. push hk sk sz c = Some c' \<and> heap_count c' = heap_count c \<and>
     int (length (heap c')) = min (heap_count c) (int (length (heap c)) + 1)"
proof (cases "int (length (heap c)) < heap_count c")
  case True
  then have "size_less_int (length (heap c)) (heap_count c)"
    using assms by (simp add: size_less_int_def)
  then show ?thesis
    using True by (simp add: push_def length_emplace)
next
  case False
  with assms have full: "int (length (heap c)) = heap_count c" by simp
  then have no: "\<not> size_less_int (length (heap c)) (heap_count c)"
    using assms by (simp add: size_less_int_def)
  from full assms(1) obtain top_item rest where h: "heap c = top_item # rest"
    by (cases "heap c") auto
  show ?thesis
    using no h full by (simp add: push_def length_emplace)
qed

section \<open>Properties of the command fan-out\<close>

lemma length_resize: "length (resize n d xs) = n"
  by (simp add: resize_def)

lemma fan_run_snoc:
  "fan_run nodes c s (es @ [e]) =
     (case fan_run nodes c s es of None \<Rightarrow> None | Some s' \<Rightarrow> fan_step nodes c s' e)"
  by (induction es arbitrary: s) (simp_all split: option.splits)

lemma replies_snoc:
  "replies j (es @ [e]) =
     replies j es @ (case e of Caller_step \<Rightarrow> [] | Callback j' r \<Rightarrow> if j' = j then [r] else [])"
  by (simp add: replies_def)

lemma fan_inv_start: "fan_inv nodes c [] (fan_start nodes results)"
  by (simp add: fan_inv_def fan_start_def resize_def finished_def replies_def position_def)

lemma filter_one_more:
  "distinct xs \<Longrightarrow> j \<in> set xs \<Longrightarrow> \<not> P j \<Longrightarrow>
     length (filter (\<lambda>x. x = j \<or> P x) xs) = Suc (length (filter P xs))"
proof (induction xs)
  case Nil
  then show ?case by simp
next
  case (Cons x xs)
  show ?case
  proof (cases "x = j")
    case True
    with Cons.prems have "j \<notin> set xs" by simp
    then have "filter (\<lambda>x. x = j \<or> P x) xs = filter P xs"
      by (intro filter_cong) auto
    with True Cons.prems show ?thesis by simp
  next
    case False
    with Cons show ?thesis by simp
  qed
qed

lemma filter_same:
  "(\<And>x. x \<in> set xs \<Longrightarrow> P x = Q x) \<Longrightarrow> length (filter P xs) = length (filter Q xs)"
  by (induction xs) simp_all

lemma finished_pc: "finished (s\<lparr>fo_pc := p\<rparr>) = finished s"
  by (simp add: finished_def fun_eq_iff)

lemma fan_inv_Calling:
  assumes inv: "fan_inv nodes c es s" and pc: "fo_pc s = Calling i" and i: "i < length nodes"
  shows "fan_inv nodes c (es @ [Caller_step])
     (s\<lparr>fo_tasks := (fo_tasks s)[i := Some (remote_calls nodes c ! i, False)],
        fo_pc := Calling (i + 1)\<rparr>)"
proof -
  let ?s = "s\<lparr>fo_tasks := (fo_tasks s)[i := Some (remote_calls nodes c ! i, False)],
        fo_pc := Calling (i + 1)\<rparr>"
  from inv pc have len: "length (fo_tasks s) = length nodes" "length (fo_results s) = length nodes"
    and shape: "\<And>j. j < length nodes \<Longrightarrow> fo_tasks s ! j \<noteq> None \<longleftrightarrow> j < i"
    and rep: "\<And>j. j < length nodes \<Longrightarrow> if finished s j
        then \<exists>r. replies j es = [r] \<and> fo_results s ! j = reply_result r
        else replies j es = []"
    and out: "\<And>j. length nodes \<le> j \<Longrightarrow> replies j es = []"
    and cnt: "length es = i + length (filter (finished s) [0..<length nodes])"
    unfolding fan_inv_def by (simp_all add: position_def)
  from shape [OF i] have none: "fo_tasks s ! i = None" by blast
  have fin: "finished ?s j = finished s j" if "j < length nodes" for j
    using that none len by (cases "j = i") (simp_all add: finished_def)
  have "length (filter (finished ?s) [0..<length nodes]) =
      length (filter (finished s) [0..<length nodes])"
    by (rule filter_same) (use fin in simp)
  with cnt have cnt': "length (es @ [Caller_step]) =
      position (length nodes) (fo_pc ?s) + length (filter (finished ?s) [0..<length nodes])"
    by (simp add: position_def)
  have shape': "\<forall>j<length nodes. fo_tasks ?s ! j \<noteq> None \<longleftrightarrow> j < i + 1"
  proof (intro allI impI)
    fix j assume j: "j < length nodes"
    show "fo_tasks ?s ! j \<noteq> None \<longleftrightarrow> j < i + 1"
    proof (cases "j = i")
      case True
      with len i show ?thesis by simp
    next
      case False
      with shape [OF j] len show ?thesis by (auto simp add: less_Suc_eq)
    qed
  qed
  have rep': "\<forall>j<length nodes. if finished ?s j
        then \<exists>r. replies j (es @ [Caller_step]) = [r] \<and> fo_results ?s ! j = reply_result r
        else replies j (es @ [Caller_step]) = []"
    using rep fin by (simp add: replies_snoc)
  have out': "\<forall>j. length nodes \<le> j \<longrightarrow> replies j (es @ [Caller_step]) = []"
    using out by (simp add: replies_snoc)
  show ?thesis
    unfolding fan_inv_def using len i shape' rep' out' cnt' by simp
qed

lemma fan_inv_Calling_end:
  assumes inv: "fan_inv nodes c es s" and pc: "fo_pc s = Calling i" and i: "\<not> i < length nodes"
  shows "fan_inv nodes c (es @ [Caller_step]) (s\<lparr>fo_pc := Waiting 0\<rparr>)"
proof -
  from inv pc i have n: "i = length nodes"
    unfolding fan_inv_def by simp
  from inv pc n show ?thesis
    unfolding fan_inv_def by (simp add: finished_pc replies_snoc position_def)
qed

lemma fan_inv_Waiting:
  assumes inv: "fan_inv nodes c es s" and pc: "fo_pc s = Waiting i" and i: "i < length nodes"
    and fi: "finished s i"
  shows "fan_inv nodes c (es @ [Caller_step]) (s\<lparr>fo_pc := Waiting (i + 1)\<rparr>)"
proof -
  have "\<forall>j<i + 1. finished s j" if "\<forall>j<i. finished s j"
    using that fi by (simp add: less_Suc_eq)
  with inv pc i show ?thesis
    unfolding fan_inv_def by (simp add: finished_pc replies_snoc position_def)
qed

lemma fan_inv_Waiting_end:
  assumes inv: "fan_inv nodes c es s" and pc: "fo_pc s = Waiting i" and i: "\<not> i < length nodes"
  shows "fan_inv nodes c (es @ [Caller_step]) (s\<lparr>fo_pc := Joined\<rparr>)"
proof -
  from inv pc i have n: "i = length nodes"
    unfolding fan_inv_def by simp
  from inv pc n show ?thesis
    unfolding fan_inv_def by (simp add: finished_pc replies_snoc position_def)
qed

lemma fan_inv_Callback:
  assumes inv: "fan_inv nodes c es s" and j: "j < length (fo_tasks s)"
    and task: "fo_tasks s ! j = Some task" and undone: "\<not> snd task"
  shows "fan_inv nodes c (es @ [Callback j r])
     (s\<lparr>fo_results := callback j r (fo_results s),
        fo_tasks := (fo_tasks s)[j := Some (fst task, True)]\<rparr>)"
proof -
  let ?s = "s\<lparr>fo_results := callback j r (fo_results s),
        fo_tasks := (fo_tasks s)[j := Some (fst task, True)]\<rparr>"
  from inv have len: "length (fo_tasks s) = length nodes" "length (fo_results s) = length nodes"
    and rep: "\<And>k. k < length nodes \<Longrightarrow> if finished s k
        then \<exists>r. replies k es = [r] \<and> fo_results s ! k = reply_result r
        else replies k es = []"
    and out: "\<And>k. length nodes \<le> k \<Longrightarrow> replies k es = []"
    and cnt: "length es = position (length nodes) (fo_pc s) +
        length (filter (finished s) [0..<length nodes])"
    and shape: "(case fo_pc s of
        Calling i \<Rightarrow> i \<le> length nodes \<and> (\<forall>j<length nodes. fo_tasks s ! j \<noteq> None \<longleftrightarrow> j < i)
      | Waiting i \<Rightarrow> i \<le> length nodes \<and> (\<forall>j<length nodes. fo_tasks s ! j \<noteq> None) \<and>
          (\<forall>j<i. finished s j)
      | Joined \<Rightarrow> (\<forall>j<length nodes. finished s j))"
    unfolding fan_inv_def by simp_all
  from j len have jn: "j < length nodes" by simp
  from task undone have nf: "\<not> finished s j" by (simp add: finished_def)
  have fin: "finished ?s k = (k = j \<or> finished s k)" if "k < length nodes" for k
    using that len by (cases "k = j") (simp_all add: finished_def)
  have some: "fo_tasks ?s ! k \<noteq> None \<longleftrightarrow> fo_tasks s ! k \<noteq> None" if "k < length nodes" for k
    using that len task by (cases "k = j") simp_all
  have "length (filter (finished ?s) [0..<length nodes]) =
      length (filter (\<lambda>k. k = j \<or> finished s k) [0..<length nodes])"
    by (rule filter_same) (use fin in simp)
  also have "\<dots> = Suc (length (filter (finished s) [0..<length nodes]))"
    using jn nf by (intro filter_one_more) simp_all
  finally have cnt': "length (es @ [Callback j r]) =
      position (length nodes) (fo_pc ?s) + length (filter (finished ?s) [0..<length nodes])"
    using cnt by simp
  have shape': "(case fo_pc ?s of
        Calling i \<Rightarrow> i \<le> length nodes \<and> (\<forall>j<length nodes. fo_tasks ?s ! j \<noteq> None \<longleftrightarrow> j < i)
      | Waiting i \<Rightarrow> i \<le> length nodes \<and> (\<forall>j<length nodes. fo_tasks ?s ! j \<noteq> None) \<and>
          (\<forall>j<i. finished ?s j)
      | Joined \<Rightarrow> (\<forall>j<length nodes. finished ?s j))"
  proof (cases "fo_pc s")
    case (Calling i)
    with shape some show ?thesis by simp
  next
    case (Waiting i)
    with shape have "i \<le> length nodes" "\<forall>j<length nodes. fo_tasks s ! j \<noteq> None"
      "\<forall>j<i. finished s j"
      by simp_all
    then show ?thesis using Waiting some fin by simp
  next
    case Joined
    with shape fin show ?thesis by simp
  qed
  have rep': "\<forall>k<length nodes. if finished ?s k
        then \<exists>r'. replies k (es @ [Callback j r]) = [r'] \<and> fo_results ?s ! k = reply_result r'
        else replies k (es @ [Callback j r]) = []"
  proof (intro allI impI)
    fix k assume k: "k < length nodes"
    show "if finished ?s k
        then \<exists>r'. replies k (es @ [Callback j r]) = [r'] \<and> fo_results ?s ! k = reply_result r'
        else replies k (es @ [Callback j r]) = []"
    proof (cases "k = j")
      case True
      from rep [OF jn] nf have "replies j es = []" by simp
      then show ?thesis
        using True fin [OF k] jn len by (simp add: replies_snoc callback_def)
    next
      case False
      then show ?thesis
        using rep [OF k] fin [OF k] by (simp add: replies_snoc callback_def)
    qed
  qed
  have out': "\<forall>k. length nodes \<le> k \<longrightarrow> replies k (es @ [Callback j r]) = []"
    using out jn by (simp add: replies_snoc)
  show ?thesis
    unfolding fan_inv_def using len shape' rep' out' cnt' by (simp add: callback_def)
qed

lemma fan_inv_step:
  assumes inv: "fan_inv nodes c es s" and st: "fan_step nodes c s e = Some s'"
  shows "fan_inv nodes c (es @ [e]) s'"
proof (cases e)
  case Caller_step
  show ?thesis
  proof (cases "fo_pc s")
    case (Calling i)
    show ?thesis
    proof (cases "i < length nodes")
      case True
      with st Caller_step Calling
      have "s' = s\<lparr>fo_tasks := (fo_tasks s)[i := Some (remote_calls nodes c ! i, False)],
          fo_pc := Calling (i + 1)\<rparr>"
        by (simp add: fan_step_def)
      with fan_inv_Calling [OF inv Calling True] Caller_step show ?thesis by simp
    next
      case False
      with st Caller_step Calling have "s' = s\<lparr>fo_pc := Waiting 0\<rparr>"
        by (simp add: fan_step_def)
      with fan_inv_Calling_end [OF inv Calling False] Caller_step show ?thesis by simp
    qed
  next
    case (Waiting i)
    show ?thesis
    proof (cases "i < length nodes")
      case True
      with st Caller_step Waiting have "finished s i" and "s' = s\<lparr>fo_pc := Waiting (i + 1)\<rparr>"
        by (auto simp add: fan_step_def finished_def split: option.splits if_splits)
      with fan_inv_Waiting [OF inv Waiting True] Caller_step show ?thesis by simp
    next
      case False
      with st Caller_step Waiting have "s' = s\<lparr>fo_pc := Joined\<rparr>"
        by (simp add: fan_step_def)
      with fan_inv_Waiting_end [OF inv Waiting False] Caller_step show ?thesis by simp
    qed
  next
    case Joined
    with st Caller_step show ?thesis by (simp add: fan_step_def)
  qed
next
  case (Callback j r)
  with st obtain task where j: "j < length (fo_tasks s)" and task: "fo_tasks s ! j = Some task"
    and undone: "\<not> snd task"
    and s': "s' = s\<lparr>fo_results := callback j r (fo_results s),
        fo_tasks := (fo_tasks s)[j := Some (fst task, True)]\<rparr>"
    by (auto simp add: fan_step_def split: option.splits if_splits)
  from fan_inv_Callback [OF inv j task undone, of r] s' Callback show ?thesis by simp
qed

lemma fan_inv_run:
  "fan_run nodes c (fan_start nodes results) es = Some s \<Longrightarrow> fan_inv nodes c es s"
proof (induction es arbitrary: s rule: rev_induct)
  case Nil
  then show ?case using fan_inv_start [of nodes c results] by simp
next
  case (snoc e es)
  from snoc.prems obtain s0 where r: "fan_run nodes c (fan_start nodes results) es = Some s0"
    and st: "fan_step nodes c s0 e = Some s"
    by (auto simp add: fan_run_snoc split: option.splits)
  from snoc.IH [OF r] st show ?case by (rule fan_inv_step)
qed

lemma fan_run_append:
  "fan_run nodes c s (es @ es') =
     (case fan_run nodes c s es of None \<Rightarrow> None | Some s' \<Rightarrow> fan_run nodes c s' es')"
  by (induction es arbitrary: s) (simp_all split: option.splits)








section \<open>Properties of the aggregation\<close>

lemma update_unrecognised:
  "cn \<notin> set (map fst (accumulators row)) \<Longrightarrow> update_app_pegasus_perf_counter row cn v = (False, row)"
  unfolding accumulators_def
  by (simp add: update_app_pegasus_perf_counter_def)

lemma counter_names:
  "cn \<in> set (map fst (accumulators row)) \<longleftrightarrow>
     cn = ''get_qps'' \<or> cn = ''multi_get_qps'' \<or> cn = ''put_qps'' \<or> cn = ''multi_put_qps'' \<or>
     cn = ''remove_qps'' \<or> cn = ''multi_remove_qps'' \<or> cn = ''incr_qps'' \<or>
     cn = ''check_and_set_qps'' \<or> cn = ''check_and_mutate_qps'' \<or> cn = ''scan_qps'' \<or>
     cn = ''recent.expire.count'' \<or> cn = ''recent.filter.count'' \<or>
     cn = ''recent.abnormal.count'' \<or> cn = ''disk.storage.sst(MB)'' \<or>
     cn = ''disk.storage.sst.count'' \<or> cn = ''rdb.block_cache.hit_count'' \<or>
     cn = ''rdb.block_cache.total_count'' \<or> cn = ''rdb.block_cache.memory_usage'' \<or>
     cn = ''rdb.index_and_filter_blocks.memory_usage'' \<or> cn = ''rdb.memtable.memory_usage''"
  unfolding accumulators_def by simp

lemma update_recognised:
  assumes "cn \<in> set (map fst (accumulators row))"
  shows "fst (update_app_pegasus_perf_counter row cn v) \<and>
     row_name (snd (update_app_pegasus_perf_counter row cn v)) = row_name row \<and>
     accumulators (snd (update_app_pegasus_perf_counter row cn v)) =
       map (\<lambda>(n, x). (n, if n = cn then x + v else x)) (accumulators row)"
  using assms unfolding counter_names
  by (elim disjE) (simp_all add: update_app_pegasus_perf_counter_def accumulators_def)

lemma update_accumulators:
  "fst (update_app_pegasus_perf_counter row cn v) = (cn \<in> set (map fst (accumulators row))) \<and>
   row_name (snd (update_app_pegasus_perf_counter row cn v)) = row_name row \<and>
   accumulators (snd (update_app_pegasus_perf_counter row cn v)) =
     map (\<lambda>(n, x). (n, if n = cn then x + v else x)) (accumulators row)"
proof (cases "cn \<in> set (map fst (accumulators row))")
  case True
  then show ?thesis using update_recognised [OF True, of v] by simp
next
  case False
  have "map (\<lambda>(n, x). (n, if n = cn then x + v else x)) (accumulators row) = accumulators row"
  proof (intro map_idI)
    fix q assume "q \<in> set (accumulators row)"
    with False have "fst q \<noteq> cn" by force
    then show "(case q of (n, x) \<Rightarrow> (n, if n = cn then x + v else x)) = q"
      by (cases q) simp
  qed
  then show ?thesis
    using False by (simp add: update_unrecognised)
qed

lemma name_rows_props:
  "name_rows apps k rows idx = Inr (rows', idx') \<Longrightarrow> distinct (map ai_app_id apps) \<Longrightarrow>
     length rows' = length rows \<and>
     (\<forall>i<length apps. k + i < length rows \<and>
        map_of idx' (ai_app_id (apps ! i)) = Some (int (k + i)) \<and>
        row_name (rows' ! (k + i)) = ai_app_name (apps ! i)) \<and>
     (\<forall>j<k. rows' ! j = rows ! j) \<and>
     (\<forall>a. a \<notin> ai_app_id ` set apps \<longrightarrow> map_of idx' a = map_of idx a)"
proof (induction apps arbitrary: k rows idx)
  case Nil
  then show ?case by simp
next
  case (Cons app apps)
  from Cons.prems(1) have k: "k < length rows"
    by (simp split: if_splits)
  let ?rows = "rows[k := (rows ! k)\<lparr>row_name := ai_app_name app\<rparr>]"
  let ?idx = "AList.update (ai_app_id app) (int k) idx"
  from Cons.prems(1) k have rec: "name_rows apps (k + 1) ?rows ?idx = Inr (rows', idx')"
    by simp
  from Cons.prems(2) have d: "distinct (map ai_app_id apps)" and fresh: "ai_app_id app \<notin> ai_app_id ` set apps"
    by auto
  note ih = Cons.IH [OF rec d]
  from ih have len: "length rows' = length rows"
    by simp
  from ih have tail: "\<And>i. i < length apps \<Longrightarrow> k + 1 + i < length rows \<and>
      map_of idx' (ai_app_id (apps ! i)) = Some (int (k + 1 + i)) \<and>
      row_name (rows' ! (k + 1 + i)) = ai_app_name (apps ! i)"
    by simp
  from ih have low: "\<And>j. j < k + 1 \<Longrightarrow> rows' ! j = ?rows ! j"
    by blast
  from ih have other: "\<And>a. a \<notin> ai_app_id ` set apps \<Longrightarrow> map_of idx' a = map_of ?idx a"
    by blast
  have head: "map_of idx' (ai_app_id app) = Some (int k) \<and> row_name (rows' ! k) = ai_app_name app"
    using other [OF fresh] low [of k] k by (simp add: update_conv')
  have all: "\<forall>i<length (app # apps). k + i < length rows \<and>
        map_of idx' (ai_app_id ((app # apps) ! i)) = Some (int (k + i)) \<and>
        row_name (rows' ! (k + i)) = ai_app_name ((app # apps) ! i)"
  proof (intro allI impI)
    fix i assume "i < length (app # apps)"
    show "k + i < length rows \<and>
        map_of idx' (ai_app_id ((app # apps) ! i)) = Some (int (k + i)) \<and>
        row_name (rows' ! (k + i)) = ai_app_name ((app # apps) ! i)"
    proof (cases i)
      case 0
      then show ?thesis using head k by simp
    next
      case (Suc i')
      with \<open>i < length (app # apps)\<close> have "i' < length apps" by simp
      from tail [OF this] show ?thesis using Suc by simp
    qed
  qed
  have lower: "\<forall>j<k. rows' ! j = rows ! j"
    using low by simp
  have others: "\<forall>a. a \<notin> ai_app_id ` set (app # apps) \<longrightarrow> map_of idx' a = map_of idx a"
    using other by (simp add: update_conv')
  show ?case
    using len all lower others by simp
qed

lemma name_partition_rows_props:
  "length (name_partition_rows n rows) = length rows \<and>
   (\<forall>k<length rows. name_partition_rows n rows ! k =
        (if k < n then (rows ! k)\<lparr>row_name := to_decimal (int k)\<rparr> else rows ! k))"
proof (induction n)
  case 0
  then show ?case by (simp add: name_partition_rows_def)
next
  case (Suc n)
  let ?rs = "name_partition_rows n rows"
  have step: "name_partition_rows (Suc n) rows = ?rs[n := (?rs ! n)\<lparr>row_name := to_decimal (int n)\<rparr>]"
    by (simp add: name_partition_rows_def)
  from Suc have len: "length ?rs = length rows" by simp
  show ?case
  proof (intro conjI allI impI)
    show "length (name_partition_rows (Suc n) rows) = length rows"
      using len by (simp add: step)
  next
    fix k assume k: "k < length rows"
    from Suc k have old: "?rs ! k = (if k < n then (rows ! k)\<lparr>row_name := to_decimal (int k)\<rparr> else rows ! k)"
      by simp
    show "name_partition_rows (Suc n) rows ! k =
        (if k < Suc n then (rows ! k)\<lparr>row_name := to_decimal (int k)\<rparr> else rows ! k)"
    proof (cases "k = n")
      case True
      then show ?thesis using k len old by (simp add: step)
    next
      case False
      then show ?thesis using k len old by (simp add: step)
    qed
  qed
qed

lemma add_counter_all_cases:
  assumes "parse_app_pegasus_perf_counter_name (m_name m) 0 0 [] = (True, a, p, cn)"
  shows "add_counter_all app_partitions app_row_idx node m rows =
     (case map_of app_partitions a of
        None \<Rightarrow> Inr rows
      | Some pcs \<Rightarrow>
          (case vec_at pcs p of
             None \<Rightarrow> Inl Out_of_bounds
           | Some pc \<Rightarrow>
               if primary pc \<noteq> node then Inr rows
               else (case vec_at rows (case map_of app_row_idx a of None \<Rightarrow> 0 | Some i \<Rightarrow> i) of
                       None \<Rightarrow> Inl Out_of_bounds
                     | Some row \<Rightarrow>
                         Inr (rows[nat (case map_of app_row_idx a of None \<Rightarrow> 0 | Some i \<Rightarrow> i) :=
                                snd (update_app_pegasus_perf_counter row cn (m_value m))]))))"
  unfolding add_counter_all_def assms
  by (simp add: Let_def cong: option.case_cong if_cong)

lemma add_counter_one_cases:
  assumes "parse_app_pegasus_perf_counter_name (m_name m) 0 0 [] = (True, a, p, cn)"
  shows "add_counter_one app_id partition_count partitions node m rows =
     (if a \<noteq> app_id then Inl Assertion_failure
      else if partition_count \<le> p then Inl Assertion_failure
      else (case vec_at partitions p of
              None \<Rightarrow> Inl Out_of_bounds
            | Some pc \<Rightarrow>
                if primary pc \<noteq> node then Inr rows
                else (case vec_at rows p of
                        None \<Rightarrow> Inl Out_of_bounds
                      | Some row \<Rightarrow>
                          Inr (rows[nat p := snd (update_app_pegasus_perf_counter row cn (m_value m))]))))"
  unfolding add_counter_one_def assms
  by (simp add: Let_def not_less cong: option.case_cong if_cong)

lemma vec_at_in: "0 \<le> i \<Longrightarrow> i < int (length xs) \<Longrightarrow> vec_at xs i = Some (xs ! nat i)"
  by (simp add: vec_at_def nat_less_iff)

lemma vec_at_out: "i < 0 \<or> int (length xs) \<le> i \<Longrightarrow> vec_at xs i = None"
  by (auto simp add: vec_at_def)

lemma vec_at_Some_range: "vec_at xs i = Some x \<Longrightarrow> 0 \<le> i \<and> i < int (length xs)"
  by (simp add: vec_at_def nat_less_iff split: if_splits)

text \<open>
  The loops over the counters of a node and over the nodes, as folds over all counters of
  all nodes, and the two branches of the whole function.
\<close>

lemma fold_failed:
  "(\<And>x e. g x (Inl e) = Inl e) \<Longrightarrow> fold g xs (Inl e) = Inl e"
  by (induction xs) simp_all

lemma add_counters_fold:
  "add_counters f ms rows =
     fold (\<lambda>m acc. case acc of Inl e \<Rightarrow> Inl e | Inr r \<Rightarrow> f m r) ms (Inr rows)"
proof (induction ms arbitrary: rows)
  case Nil
  then show ?case by simp
next
  case (Cons m ms)
  show ?case
  proof (cases "f m rows")
    case (Inl e)
    then show ?thesis by (simp add: fold_failed)
  next
    case (Inr rows')
    then show ?thesis using Cons.IH [of rows'] by simp
  qed
qed

lemma fold_pairs:
  "fold (\<lambda>(a, m) acc. case acc of Inl e \<Rightarrow> Inl e | Inr r \<Rightarrow> f a m r) (map (Pair a) ms) acc =
     fold (\<lambda>m acc. case acc of Inl e \<Rightarrow> Inl e | Inr r \<Rightarrow> f a m r) ms acc"
  by (induction ms arbitrary: acc) simp_all

lemma add_nodes_fold:
  assumes "length results = length nodes" and "length infos \<le> length nodes"
    and "\<forall>i<length infos. fst (results ! i) \<and> decode (snd (results ! i)) = Some (infos ! i) \<and>
           info_result (infos ! i) = ''OK''"
    and "length infos < length nodes \<longrightarrow>
           \<not> fst (results ! length infos) \<or> decode (snd (results ! length infos)) = None \<or>
           (\<exists>info. decode (snd (results ! length infos)) = Some info \<and> info_result info \<noteq> ''OK'')"
  shows "add_nodes decode f (zip nodes results) rows =
     fold (\<lambda>(a, m) acc. case acc of Inl e \<Rightarrow> Inl e | Inr r \<Rightarrow> f a m r)
       (concat (map (\<lambda>(n, info). map (Pair (address n)) (info_counters info)) (zip nodes infos)))
       (Inr rows)"
  using assms
proof (induction nodes arbitrary: results infos rows)
  case Nil
  then show ?case by simp
next
  case (Cons n nodes)
  from Cons.prems(1) obtain x xs where results: "results = x # xs" and len: "length xs = length nodes"
    by (cases results) simp_all
  show ?case
  proof (cases infos)
    case Nil
    with Cons.prems(4) results have "\<not> fst x \<or> decode (snd x) = None \<or>
        (\<exists>info. decode (snd x) = Some info \<and> info_result info \<noteq> ''OK'')"
      by simp
    then have "add_node decode f n x rows = Returned rows"
      by (auto simp add: add_node_def)
    with Nil results show ?thesis by simp
  next
    case (Cons info infos')
    from Cons.prems(3) Cons results have ok: "fst x" "decode (snd x) = Some info" "info_result info = ''OK''"
      by auto
    from Cons.prems(2) Cons have l2: "length infos' \<le> length nodes" by simp
    from Cons.prems(3) Cons results
    have a3: "\<forall>i<length infos'. fst (xs ! i) \<and> decode (snd (xs ! i)) = Some (infos' ! i) \<and>
           info_result (infos' ! i) = ''OK''"
      by auto
    from Cons.prems(4) Cons results
    have a4: "length infos' < length nodes \<longrightarrow>
           \<not> fst (xs ! length infos') \<or> decode (snd (xs ! length infos')) = None \<or>
           (\<exists>info. decode (snd (xs ! length infos')) = Some info \<and> info_result info \<noteq> ''OK'')"
      by simp
    note ih = Cons.IH [OF len l2 a3 a4]
    let ?step = "\<lambda>(a, m) acc. case acc of Inl e \<Rightarrow> Inl e | Inr r \<Rightarrow> f a m r"
    let ?rest = "concat (map (\<lambda>(n, info). map (Pair (address n)) (info_counters info)) (zip nodes infos'))"
    have split: "fold ?step
        (concat (map (\<lambda>(n, info). map (Pair (address n)) (info_counters info)) (zip (n # nodes) infos)))
        (Inr rows) =
      fold ?step ?rest (add_counters (f (address n)) (info_counters info) rows)"
      using Cons by (simp add: fold_pairs add_counters_fold)
    show ?thesis
    proof (cases "add_counters (f (address n)) (info_counters info) rows")
      case (Inl e)
      with ok have "add_node decode f n x rows = Failed e"
        by (simp add: add_node_def)
      moreover have "fold ?step ?rest (Inl e) = Inl e"
        by (rule fold_failed) (simp split: prod.splits)
      ultimately show ?thesis
        using results Inl unfolding split by simp
    next
      case (Inr rows')
      with ok have "add_node decode f n x rows = Continue rows'"
        by (simp add: add_node_def)
      with results Inr ih [of rows'] show ?thesis
        unfolding split by simp
    qed
  qed
qed

lemma call_remote_command_length:
  assumes "call_remote_command es sc nodes c results = Some rs"
  shows "length rs = length nodes"
proof -
  from assms obtain s where r: "fan_run nodes c (fan_start nodes results) es = Some s"
    and rs: "rs = fo_results s"
    by (auto simp add: call_remote_command_def split: option.splits if_splits)
  from r have "fan_inv nodes c es s" by (rule fan_inv_run)
  with rs show ?thesis unfolding fan_inv_def by simp
qed

lemma collect_app_partitions_props:
  "collect_app_partitions sc apps acc = Inr (Some aps) \<Longrightarrow> distinct (map ai_app_id apps) \<Longrightarrow>
     (\<forall>i<length apps. map_of aps (ai_app_id (apps ! i)) =
        Some (snd (snd (snd (ddl_list_app sc (ai_app_name (apps ! i))))))) \<and>
     (\<forall>a. a \<notin> ai_app_id ` set apps \<longrightarrow> map_of aps a = map_of acc a) \<and>
     fst ` set aps = fst ` set acc \<union> ai_app_id ` set apps \<and>
     (distinct (map fst acc) \<longrightarrow> distinct (map fst aps))"
proof (induction apps arbitrary: acc)
  case Nil
  then show ?case by simp
next
  case (Cons app apps)
  obtain err app_id partition_count partitions
    where la: "ddl_list_app sc (ai_app_name app) = (err, app_id, partition_count, partitions)"
    by (cases "ddl_list_app sc (ai_app_name app)") auto
  let ?acc = "AList.update (ai_app_id app) partitions acc"
  from Cons.prems(1) la have rec: "collect_app_partitions sc apps ?acc = Inr (Some aps)"
    by (simp split: if_splits)
  from Cons.prems(2) have d: "distinct (map ai_app_id apps)"
    and fresh: "ai_app_id app \<notin> ai_app_id ` set apps"
    by auto
  note ih = Cons.IH [OF rec d]
  from ih have tail: "\<And>i. i < length apps \<Longrightarrow> map_of aps (ai_app_id (apps ! i)) =
        Some (snd (snd (snd (ddl_list_app sc (ai_app_name (apps ! i))))))"
    by blast
  from ih have other: "\<And>a. a \<notin> ai_app_id ` set apps \<Longrightarrow> map_of aps a = map_of ?acc a"
    by blast
  from ih have keys: "fst ` set aps = fst ` set ?acc \<union> ai_app_id ` set apps"
    by blast
  from ih have dist: "distinct (map fst ?acc) \<Longrightarrow> distinct (map fst aps)"
    by blast
  have head: "map_of aps (ai_app_id app) = Some (snd (snd (snd (ddl_list_app sc (ai_app_name app)))))"
    using other [OF fresh] la by (simp add: update_conv')
  have 1: "\<forall>i<length (app # apps). map_of aps (ai_app_id ((app # apps) ! i)) =
        Some (snd (snd (snd (ddl_list_app sc (ai_app_name ((app # apps) ! i))))))"
  proof (intro allI impI)
    fix i assume "i < length (app # apps)"
    then show "map_of aps (ai_app_id ((app # apps) ! i)) =
        Some (snd (snd (snd (ddl_list_app sc (ai_app_name ((app # apps) ! i))))))"
      using head tail by (cases i) simp_all
  qed
  have 2: "\<forall>a. a \<notin> ai_app_id ` set (app # apps) \<longrightarrow> map_of aps a = map_of acc a"
    using other by (simp add: update_conv')
  have 3: "fst ` set aps = fst ` set acc \<union> ai_app_id ` set (app # apps)"
    using keys by (auto simp add: dom_update)
  have 4: "distinct (map fst acc) \<longrightarrow> distinct (map fst aps)"
    using dist by (simp add: distinct_update)
  from 1 2 3 4 show ?case by blast
qed

lemma collect_app_partitions_length:
  assumes "collect_app_partitions sc apps [] = Inr (Some aps)" and "distinct (map ai_app_id apps)"
  shows "length aps = length apps"
proof -
  from collect_app_partitions_props [OF assms]
  have keys: "fst ` set aps = ai_app_id ` set apps" and d: "distinct (map fst aps)"
    by simp_all
  have "length aps = card (set (map fst aps))"
    using distinct_card [OF d] by simp
  also have "\<dots> = card (set (map ai_app_id apps))"
    using keys by simp
  also have "\<dots> = length apps"
    using distinct_card [OF assms(2)] by simp
  finally show ?thesis .
qed

lemma get_app_stat_all_fold:
  fixes rows0 :: "'v::{zero,plus} row_data list"
  assumes apps: "ddl_list_apps sc = (ERR_OK, apps)"
    and nodes: "fill_nodes sc ''replica-server'' [] = (True, nodes)"
    and results: "call_remote_command es sc nodes
        \<lparr>cmd = ''perf-counters'', arguments = [counters_pattern None]\<rparr> [] = Some results"
    and aps: "collect_app_partitions sc apps [] = Inr (Some aps)"
    and named: "name_rows apps 0 (resize (length aps) new_row_data rows0) [] = Inr (rows1, idx)"
    and len: "length infos \<le> length nodes"
    and ok: "\<forall>i<length infos. fst (results ! i) \<and> decode (snd (results ! i)) = Some (infos ! i) \<and>
           info_result (infos ! i) = ''OK''"
    and bad: "length infos < length nodes \<longrightarrow>
           \<not> fst (results ! length infos) \<or> decode (snd (results ! length infos)) = None \<or>
           (\<exists>info. decode (snd (results ! length infos)) = Some info \<and> info_result info \<noteq> ''OK'')"
  shows "get_app_stat es decode sc [] rows0 =
     Some (case fold (\<lambda>(a, m) acc. case acc of Inl e \<Rightarrow> Inl e
                                    | Inr r \<Rightarrow> add_counter_all aps idx a m r)
                  (concat (map (\<lambda>(n, info). map (Pair (address n)) (info_counters info))
                     (zip nodes infos)))
                  (Inr rows1) of
             Inl e \<Rightarrow> Inl e
           | Inr r \<Rightarrow> Inr (True, r))"
proof -
  from results have l: "length results = length nodes" by (rule call_remote_command_length)
  note f = add_nodes_fold [OF l len ok bad, of "add_counter_all aps idx" rows1]
  have "get_app_stat es decode sc [] rows0 = Some (get_app_stat_all sc decode apps nodes results rows0)"
    using apps nodes results by (simp add: get_app_stat_def)
  also have "get_app_stat_all sc decode apps nodes results rows0 =
      (case add_nodes decode (add_counter_all aps idx) (zip nodes results) rows1 of
         Inl e \<Rightarrow> Inl e
       | Inr r \<Rightarrow> Inr (True, r))"
    using aps named by (simp add: get_app_stat_all_def)
  finally show ?thesis unfolding f .
qed

lemma get_app_stat_one_fold:
  fixes rows0 :: "'v::{zero,plus} row_data list"
  assumes name: "app_name \<noteq> []"
    and apps: "ddl_list_apps sc = (ERR_OK, apps)"
    and app: "List.find (\<lambda>app. ai_app_name app = app_name) apps = Some app"
    and nodes: "fill_nodes sc ''replica-server'' [] = (True, nodes)"
    and results: "call_remote_command es sc nodes
        \<lparr>cmd = ''perf-counters'', arguments = [counters_pattern (Some (ai_app_id app))]\<rparr> [] =
        Some results"
    and count: "0 \<le> ai_partition_count app"
    and listed: "ddl_list_app sc app_name = (ERR_OK, ai_app_id app, ai_partition_count app, partitions)"
    and len: "length infos \<le> length nodes"
    and ok: "\<forall>i<length infos. fst (results ! i) \<and> decode (snd (results ! i)) = Some (infos ! i) \<and>
           info_result (infos ! i) = ''OK''"
    and bad: "length infos < length nodes \<longrightarrow>
           \<not> fst (results ! length infos) \<or> decode (snd (results ! length infos)) = None \<or>
           (\<exists>info. decode (snd (results ! length infos)) = Some info \<and> info_result info \<noteq> ''OK'')"
  shows "get_app_stat es decode sc app_name rows0 =
     Some (case fold (\<lambda>(a, m) acc. case acc of Inl e \<Rightarrow> Inl e
                                    | Inr r \<Rightarrow> add_counter_one (ai_app_id app)
                                               (ai_partition_count app) partitions a m r)
                  (concat (map (\<lambda>(n, info). map (Pair (address n)) (info_counters info))
                     (zip nodes infos)))
                  (Inr (name_partition_rows (nat (ai_partition_count app))
                          (resize (nat (ai_partition_count app)) new_row_data rows0))) of
             Inl e \<Rightarrow> Inl e
           | Inr r \<Rightarrow> Inr (True, r))"
proof -
  let ?rows1 = "name_partition_rows (nat (ai_partition_count app))
                          (resize (nat (ai_partition_count app)) new_row_data rows0)"
  from results have l: "length results = length nodes" by (rule call_remote_command_length)
  note f = add_nodes_fold [OF l len ok bad,
      of "add_counter_one (ai_app_id app) (ai_partition_count app) partitions" ?rows1]
  have "get_app_stat es decode sc app_name rows0 =
      Some (get_app_stat_one sc decode app_name app nodes results rows0)"
    using name apps app nodes results by (simp add: get_app_stat_def)
  also have "get_app_stat_one sc decode app_name app nodes results rows0 =
      (case add_nodes decode (add_counter_one (ai_app_id app) (ai_partition_count app) partitions)
              (zip nodes results) ?rows1 of
         Inl e \<Rightarrow> Inl e
       | Inr r \<Rightarrow> Inr (True, r))"
    using count listed by (simp add: get_app_stat_one_def Let_def)
  finally show ?thesis unfolding f .
qed

text \<open>
  Claim C8 says of every input that a counter whose name parses is either discarded or
  added to a row. With one application named, a counter of another application stops the
  aggregation instead, by the assertion on the application's id: here the application
  has id 1 and the node reports a counter of application 2.
\<close>

theorem single_entity_foreign_counter_counterexample:
  "fst (parse_app_pegasus_perf_counter_name ''replica*app.pegasus*get_qps@2.0'' 0 0 []) \<and>
   get_app_stat [Caller_step, Caller_step, Callback 0 \<lparr>reply_err = ERR_OK, reply_resp = ''{}''\<rparr>,
       Caller_step, Caller_step]
     (\<lambda>s. Some \<lparr>info_result = ''OK'',
                 info_counters = [\<lparr>m_name = ''replica*app.pegasus*get_qps@2.0'', m_value = 10\<rparr>]\<rparr>)
     \<lparr>meta_list = [], ddl_list_nodes = (ERR_OK, [(7, NS_ALIVE)]),
      ddl_list_apps = (ERR_OK, [\<lparr>ai_app_id = 1, ai_app_name = ''t'', ai_partition_count = 1\<rparr>]),
      ddl_list_app = (\<lambda>n. (ERR_OK, 1, 1, [\<lparr>primary = 7\<rparr>]))\<rparr>
     ''t'' ([] :: real row_data list) = Some (Inl Assertion_failure)"
  by code_simp

text \<open>
  Claim C8, amended. Let the name of a counter parse to the application \<open>a\<close>, the
  partition \<open>p\<close> and the counter name \<open>cn\<close>.
  With no application named: a counter of an application that is not listed is skipped;
  when \<open>p\<close> is an index of the application's partitions, the counter is discarded if the
  node that reported it is not the primary of partition \<open>p\<close>, and is otherwise added to
  the application's row.
  With one application named: a counter of another application, or with \<open>p\<close> not below
  the partition count, fails an assertion, which stops the aggregation; when \<open>a\<close> is that
  application and \<open>p\<close> is an index of its partitions, the counter is discarded if the
  node is not the primary of partition \<open>p\<close>, and is otherwise added to row \<open>p\<close>.
  Adding to a row adds the value to the accumulator of the counter's name and leaves the
  row's name and every other accumulator as they are; a counter name that no accumulator has
  leaves the row as it is, and the aggregation goes on.
  The rows: with no application named, the applications having different ids, row \<open>i\<close> has
  the name of application \<open>i\<close> and is the row of its id, and the partitions of an
  application are those that \<open>list_app\<close> gave for it; with one application named, row
  \<open>k\<close> has the name \<open>k\<close>.
  The whole function, in both cases, once the lists are got and the fan-out has returned:
  the counters of the nodes are given to the body above one after the other, in the order of
  the nodes and of their counters, each on the rows that the one before has left, as long as
  the answers of the nodes are usable (the call succeeded, the answer decodes and is \<open>OK\<close>);
  the result is the rows after the last of them, or the failure of the first counter that
  fails. At the first node whose answer is not usable the function returns with the rows as
  they are then.
\<close>

theorem counter_is_discarded_or_added:
  fixes rows :: "'v::{zero,plus} row_data list" and row :: "'v row_data"
  assumes "parse_app_pegasus_perf_counter_name (m_name m) 0 0 [] = (True, a, p, cn)"
  shows
    "(map_of app_partitions a = None \<longrightarrow>
        add_counter_all app_partitions app_row_idx node m rows = Inr rows) \<and>
     (map_of app_partitions a = Some pcs \<and> 0 \<le> p \<and> p < int (length pcs) \<longrightarrow>
        (primary (pcs ! nat p) \<noteq> node \<longrightarrow>
           add_counter_all app_partitions app_row_idx node m rows = Inr rows) \<and>
        (primary (pcs ! nat p) = node \<and> map_of app_row_idx a = Some (int j) \<and> j < length rows \<longrightarrow>
           add_counter_all app_partitions app_row_idx node m rows =
             Inr (rows[j := snd (update_app_pegasus_perf_counter (rows ! j) cn (m_value m))]))) \<and>
     (a = app_id \<and> 0 \<le> p \<and> p < partition_count \<and> p < int (length partitions) \<longrightarrow>
        (primary (partitions ! nat p) \<noteq> node \<longrightarrow>
           add_counter_one app_id partition_count partitions node m rows = Inr rows) \<and>
        (primary (partitions ! nat p) = node \<and> p < int (length rows) \<longrightarrow>
           add_counter_one app_id partition_count partitions node m rows =
             Inr (rows[nat p :=
                    snd (update_app_pegasus_perf_counter (rows ! nat p) cn (m_value m))]))) \<and>
     (a \<noteq> app_id \<or> partition_count \<le> p \<longrightarrow>
        add_counter_one app_id partition_count partitions node m rows = Inl Assertion_failure) \<and>
     (cn \<notin> set (map fst (accumulators row)) \<longrightarrow>
        update_app_pegasus_perf_counter row cn v = (False, row)) \<and>
     (fst (update_app_pegasus_perf_counter row cn v) = (cn \<in> set (map fst (accumulators row))) \<and>
      row_name (snd (update_app_pegasus_perf_counter row cn v)) = row_name row \<and>
      accumulators (snd (update_app_pegasus_perf_counter row cn v)) =
        map (\<lambda>(n, x). (n, if n = cn then x + v else x)) (accumulators row)) \<and>
     (name_rows apps 0 rows0 [] = Inr (rows1, idx1) \<and> distinct (map ai_app_id apps) \<and>
      i < length apps \<longrightarrow>
        i < length rows1 \<and> map_of idx1 (ai_app_id (apps ! i)) = Some (int i) \<and>
        row_name (rows1 ! i) = ai_app_name (apps ! i)) \<and>
     (k < n \<and> k < length rows0 \<longrightarrow>
        row_name (name_partition_rows n rows0 ! k) = to_decimal (int k)) \<and>
     (collect_app_partitions sc apps [] = Inr (Some aps) \<and> distinct (map ai_app_id apps) \<and>
      i < length apps \<longrightarrow>
        length aps = length apps \<and>
        map_of aps (ai_app_id (apps ! i)) =
          Some (snd (snd (snd (ddl_list_app sc (ai_app_name (apps ! i))))))) \<and>
     (ddl_list_apps sc = (ERR_OK, apps) \<and>
      fill_nodes sc ''replica-server'' [] = (True, nodes) \<and>
      call_remote_command es sc nodes
        \<lparr>cmd = ''perf-counters'', arguments = [counters_pattern None]\<rparr> [] = Some results \<and>
      collect_app_partitions sc apps [] = Inr (Some aps) \<and>
      name_rows apps 0 (resize (length aps) new_row_data rows) [] = Inr (named, idx) \<and>
      length infos \<le> length nodes \<and>
      (\<forall>i<length infos. fst (results ! i) \<and> decode (snd (results ! i)) = Some (infos ! i) \<and>
           info_result (infos ! i) = ''OK'') \<and>
      (length infos < length nodes \<longrightarrow>
           \<not> fst (results ! length infos) \<or> decode (snd (results ! length infos)) = None \<or>
           (\<exists>info. decode (snd (results ! length infos)) = Some info \<and> info_result info \<noteq> ''OK''))
      \<longrightarrow>
        get_app_stat es decode sc [] rows =
          Some (case fold (\<lambda>(a, m) acc. case acc of Inl e \<Rightarrow> Inl e
                                         | Inr r \<Rightarrow> add_counter_all aps idx a m r)
                       (concat (map (\<lambda>(n, info). map (Pair (address n)) (info_counters info))
                          (zip nodes infos)))
                       (Inr named) of
                  Inl e \<Rightarrow> Inl e
                | Inr r \<Rightarrow> Inr (True, r))) \<and>
     (app_name \<noteq> [] \<and> ddl_list_apps sc = (ERR_OK, apps) \<and>
      List.find (\<lambda>app. ai_app_name app = app_name) apps = Some app \<and>
      fill_nodes sc ''replica-server'' [] = (True, nodes) \<and>
      call_remote_command es sc nodes
        \<lparr>cmd = ''perf-counters'', arguments = [counters_pattern (Some (ai_app_id app))]\<rparr> [] =
        Some results \<and>
      0 \<le> ai_partition_count app \<and>
      ddl_list_app sc app_name = (ERR_OK, ai_app_id app, ai_partition_count app, partitions) \<and>
      length infos \<le> length nodes \<and>
      (\<forall>i<length infos. fst (results ! i) \<and> decode (snd (results ! i)) = Some (infos ! i) \<and>
           info_result (infos ! i) = ''OK'') \<and>
      (length infos < length nodes \<longrightarrow>
           \<not> fst (results ! length infos) \<or> decode (snd (results ! length infos)) = None \<or>
           (\<exists>info. decode (snd (results ! length infos)) = Some info \<and> info_result info \<noteq> ''OK''))
      \<longrightarrow>
        get_app_stat es decode sc app_name rows =
          Some (case fold (\<lambda>(a, m) acc. case acc of Inl e \<Rightarrow> Inl e
                                         | Inr r \<Rightarrow> add_counter_one (ai_app_id app)
                                                    (ai_partition_count app) partitions a m r)
                       (concat (map (\<lambda>(n, info). map (Pair (address n)) (info_counters info))
                          (zip nodes infos)))
                       (Inr (name_partition_rows (nat (ai_partition_count app))
                               (resize (nat (ai_partition_count app)) new_row_data rows))) of
                  Inl e \<Rightarrow> Inl e
                | Inr r \<Rightarrow> Inr (True, r)))"
proof -
  note all = add_counter_all_cases [OF assms, of app_partitions app_row_idx node rows]
  note one = add_counter_one_cases [OF assms, of app_id partition_count partitions node rows]
  have 1: "add_counter_all app_partitions app_row_idx node m rows = Inr rows"
    if "map_of app_partitions a = None"
    unfolding all using that by simp
  have 2: "add_counter_all app_partitions app_row_idx node m rows = Inr rows"
    if "map_of app_partitions a = Some pcs" "0 \<le> p" "p < int (length pcs)"
      "primary (pcs ! nat p) \<noteq> node"
    unfolding all using that by (simp add: vec_at_in)
  have 3: "add_counter_all app_partitions app_row_idx node m rows =
             Inr (rows[j := snd (update_app_pegasus_perf_counter (rows ! j) cn (m_value m))])"
    if "map_of app_partitions a = Some pcs" "0 \<le> p" "p < int (length pcs)"
      "primary (pcs ! nat p) = node" "map_of app_row_idx a = Some (int j)" "j < length rows"
  proof -
    have "vec_at rows (int j) = Some (rows ! j)"
      using that(6) by (simp add: vec_at_in)
    then show ?thesis
      unfolding all using that by (simp add: vec_at_in)
  qed
  have 4: "add_counter_one app_id partition_count partitions node m rows = Inr rows"
    if "a = app_id" "0 \<le> p" "p < partition_count" "p < int (length partitions)"
      "primary (partitions ! nat p) \<noteq> node"
    unfolding one using that by (simp add: vec_at_in)
  have 5: "add_counter_one app_id partition_count partitions node m rows =
             Inr (rows[nat p :=
                    snd (update_app_pegasus_perf_counter (rows ! nat p) cn (m_value m))])"
    if "a = app_id" "0 \<le> p" "p < partition_count" "p < int (length partitions)"
      "primary (partitions ! nat p) = node" "p < int (length rows)"
    unfolding one using that by (simp add: vec_at_in)
  note 6 = update_accumulators [of row cn v]
  have 7: "i < length rows1 \<and> map_of idx1 (ai_app_id (apps ! i)) = Some (int i) \<and>
        row_name (rows1 ! i) = ai_app_name (apps ! i)"
    if n: "name_rows apps 0 rows0 [] = Inr (rows1, idx1)" and d: "distinct (map ai_app_id apps)"
      and i: "i < length apps"
    using name_rows_props [OF n d] i by simp
  have 8: "row_name (name_partition_rows n rows0 ! k) = to_decimal (int k)"
    if "k < n" "k < length rows0"
    using name_partition_rows_props [of n rows0] that by simp
  have 9: "add_counter_one app_id partition_count partitions node m rows = Inl Assertion_failure"
    if "a \<noteq> app_id \<or> partition_count \<le> p"
    unfolding one using that by auto
  have 10: "update_app_pegasus_perf_counter row cn v = (False, row)"
    if "cn \<notin> set (map fst (accumulators row))"
    using that by (rule update_unrecognised)
  have 11: "length aps = length apps \<and>
        map_of aps (ai_app_id (apps ! i)) =
          Some (snd (snd (snd (ddl_list_app sc (ai_app_name (apps ! i))))))"
    if c: "collect_app_partitions sc apps [] = Inr (Some aps)" and d: "distinct (map ai_app_id apps)"
      and i: "i < length apps"
    using collect_app_partitions_props [OF c d] collect_app_partitions_length [OF c d] i by blast
  note 12 = get_app_stat_all_fold [of sc apps nodes es results aps rows named idx infos decode]
  note 13 = get_app_stat_one_fold [of app_name sc apps app nodes es results partitions infos decode rows]
  show ?thesis
    apply (intro conjI impI)
    subgoal using 1 by blast
    subgoal using 2 by blast
    subgoal using 3 by blast
    subgoal using 4 by blast
    subgoal using 5 by blast
    subgoal using 9 by blast
    subgoal using 10 by blast
    subgoal using 6 by blast
    subgoal using 6 by blast
    subgoal using 6 by blast
    subgoal using 7 by blast
    subgoal using 7 by blast
    subgoal using 7 by blast
    subgoal using 8 by blast
    subgoal using 11 by blast
    subgoal using 11 by blast
    subgoal by (rule 12) blast+
    subgoal by (rule 13) blast+
    done
qed

text \<open>
  The amended claim C8 at an application with four partitions whose primaries are four
  nodes, each of which reports \<open>get_qps = 10\<close> for its partition; the first node also
  reports \<open>get_qps\<close> of a partition of which it is not the primary, and a counter that no
  accumulator has. With no application named the one row has \<open>get_qps = 40\<close>; with the
  application named each of the four rows has \<open>get_qps = 10\<close>. Then a counter \<open>get_qps\<close>
  of partition 1 of application 1, whose primary is node 11: reported by node 11 and by
  node 10 with no application named, reported by node 11 with application 1 named, and
  with application 2 named.
\<close>

theorem counter_is_discarded_or_added_witness:
  "get_app_stat
     [Caller_step, Caller_step, Caller_step, Caller_step, Caller_step,
      Callback 2 \<lparr>reply_err = ERR_OK, reply_resp = ''c''\<rparr>,
      Callback 0 \<lparr>reply_err = ERR_OK, reply_resp = ''a''\<rparr>,
      Callback 3 \<lparr>reply_err = ERR_OK, reply_resp = ''d''\<rparr>,
      Callback 1 \<lparr>reply_err = ERR_OK, reply_resp = ''b''\<rparr>,
      Caller_step, Caller_step, Caller_step, Caller_step, Caller_step]
     (\<lambda>s. if s = ''a'' then Some \<lparr>info_result = ''OK'', info_counters =
                [\<lparr>m_name = ''replica*app.pegasus*get_qps@1.0'', m_value = 10\<rparr>,
                 \<lparr>m_name = ''replica*app.pegasus*get_qps@1.1'', m_value = 7\<rparr>,
                 \<lparr>m_name = ''replica*app.pegasus*other@1.0'', m_value = 5\<rparr>]\<rparr>
          else if s = ''b'' then Some \<lparr>info_result = ''OK'', info_counters =
                [\<lparr>m_name = ''replica*app.pegasus*get_qps@1.1'', m_value = 10\<rparr>]\<rparr>
          else if s = ''c'' then Some \<lparr>info_result = ''OK'', info_counters =
                [\<lparr>m_name = ''replica*app.pegasus*get_qps@1.2'', m_value = 10\<rparr>]\<rparr>
          else if s = ''d'' then Some \<lparr>info_result = ''OK'', info_counters =
                [\<lparr>m_name = ''replica*app.pegasus*get_qps@1.3'', m_value = 10\<rparr>]\<rparr>
          else None)
     \<lparr>meta_list = [],
      ddl_list_nodes = (ERR_OK, [(10, NS_ALIVE), (11, NS_ALIVE), (12, NS_ALIVE), (13, NS_ALIVE)]),
      ddl_list_apps = (ERR_OK, [\<lparr>ai_app_id = 1, ai_app_name = ''t'', ai_partition_count = 4\<rparr>]),
      ddl_list_app = (\<lambda>n. (ERR_OK, 1, 4,
         [\<lparr>primary = 10\<rparr>, \<lparr>primary = 11\<rparr>, \<lparr>primary = 12\<rparr>, \<lparr>primary = 13\<rparr>]))\<rparr>
     [] ([] :: real row_data list) =
     Some (Inr (True, [new_row_data\<lparr>row_name := ''t'', get_qps := 40\<rparr>])) \<and>
   add_counter_all [(1, [\<lparr>primary = 10\<rparr>, \<lparr>primary = 11\<rparr>])] [(1, 0)] 11
     \<lparr>m_name = ''replica*app.pegasus*get_qps@1.1'', m_value = 10\<rparr>
     [(new_row_data :: real row_data)\<lparr>row_name := ''t''\<rparr>] =
     Inr [new_row_data\<lparr>row_name := ''t'', get_qps := 10\<rparr>] \<and>
   add_counter_all [(1, [\<lparr>primary = 10\<rparr>, \<lparr>primary = 11\<rparr>])] [(1, 0)] 10
     \<lparr>m_name = ''replica*app.pegasus*get_qps@1.1'', m_value = 10\<rparr>
     [(new_row_data :: real row_data)\<lparr>row_name := ''t''\<rparr>] =
     Inr [new_row_data\<lparr>row_name := ''t''\<rparr>] \<and>
   add_counter_one 1 2 [\<lparr>primary = 10\<rparr>, \<lparr>primary = 11\<rparr>] 11
     \<lparr>m_name = ''replica*app.pegasus*get_qps@1.1'', m_value = 10\<rparr>
     [(new_row_data :: real row_data)\<lparr>row_name := ''0''\<rparr>, new_row_data\<lparr>row_name := ''1''\<rparr>] =
     Inr [new_row_data\<lparr>row_name := ''0''\<rparr>, new_row_data\<lparr>row_name := ''1'', get_qps := 10\<rparr>] \<and>
   add_counter_one 2 2 [\<lparr>primary = 10\<rparr>, \<lparr>primary = 11\<rparr>] 11
     \<lparr>m_name = ''replica*app.pegasus*get_qps@1.1'', m_value = 10\<rparr>
     [(new_row_data :: real row_data)\<lparr>row_name := ''0''\<rparr>, new_row_data\<lparr>row_name := ''1''\<rparr>] =
     Inl Assertion_failure \<and>
   get_app_stat
     [Caller_step, Caller_step, Caller_step, Caller_step, Caller_step,
      Callback 2 \<lparr>reply_err = ERR_OK, reply_resp = ''c''\<rparr>,
      Callback 0 \<lparr>reply_err = ERR_OK, reply_resp = ''a''\<rparr>,
      Callback 3 \<lparr>reply_err = ERR_OK, reply_resp = ''d''\<rparr>,
      Callback 1 \<lparr>reply_err = ERR_OK, reply_resp = ''b''\<rparr>,
      Caller_step, Caller_step, Caller_step, Caller_step, Caller_step]
     (\<lambda>s. if s = ''a'' then Some \<lparr>info_result = ''OK'', info_counters =
                [\<lparr>m_name = ''replica*app.pegasus*get_qps@1.0'', m_value = 10\<rparr>,
                 \<lparr>m_name = ''replica*app.pegasus*get_qps@1.1'', m_value = 7\<rparr>,
                 \<lparr>m_name = ''replica*app.pegasus*other@1.0'', m_value = 5\<rparr>]\<rparr>
          else if s = ''b'' then Some \<lparr>info_result = ''OK'', info_counters =
                [\<lparr>m_name = ''replica*app.pegasus*get_qps@1.1'', m_value = 10\<rparr>]\<rparr>
          else if s = ''c'' then Some \<lparr>info_result = ''OK'', info_counters =
                [\<lparr>m_name = ''replica*app.pegasus*get_qps@1.2'', m_value = 10\<rparr>]\<rparr>
          else if s = ''d'' then Some \<lparr>info_result = ''OK'', info_counters =
                [\<lparr>m_name = ''replica*app.pegasus*get_qps@1.3'', m_value = 10\<rparr>]\<rparr>
          else None)
     \<lparr>meta_list = [],
      ddl_list_nodes = (ERR_OK, [(10, NS_ALIVE), (11, NS_ALIVE), (12, NS_ALIVE), (13, NS_ALIVE)]),
      ddl_list_apps = (ERR_OK, [\<lparr>ai_app_id = 1, ai_app_name = ''t'', ai_partition_count = 4\<rparr>]),
      ddl_list_app = (\<lambda>n. (ERR_OK, 1, 4,
         [\<lparr>primary = 10\<rparr>, \<lparr>primary = 11\<rparr>, \<lparr>primary = 12\<rparr>, \<lparr>primary = 13\<rparr>]))\<rparr>
     ''t'' ([] :: real row_data list) =
     Some (Inr (True, [new_row_data\<lparr>row_name := ''0'', get_qps := 10\<rparr>,
                       new_row_data\<lparr>row_name := ''1'', get_qps := 10\<rparr>,
                       new_row_data\<lparr>row_name := ''2'', get_qps := 10\<rparr>,
                       new_row_data\<lparr>row_name := ''3'', get_qps := 10\<rparr>]))"
proof -
  let ?m = "\<lparr>m_name = ''replica*app.pegasus*get_qps@1.1'', m_value = 10 :: real\<rparr>"
  let ?pcs = "[\<lparr>primary = 10\<rparr>, \<lparr>primary = 11\<rparr>]"
  let ?rows = "[(new_row_data :: real row_data)\<lparr>row_name := ''t''\<rparr>]"
  let ?rows2 = "[(new_row_data :: real row_data)\<lparr>row_name := ''0''\<rparr>, new_row_data\<lparr>row_name := ''1''\<rparr>]"
  have p0: "parse_app_pegasus_perf_counter_name ''replica*app.pegasus*get_qps@1.0'' 0 0 [] =
      (True, 1, 0, ''get_qps'')"
    by code_simp
  have p1: "parse_app_pegasus_perf_counter_name ''replica*app.pegasus*get_qps@1.1'' 0 0 [] =
      (True, 1, 1, ''get_qps'')"
    by code_simp
  have p2: "parse_app_pegasus_perf_counter_name ''replica*app.pegasus*get_qps@1.2'' 0 0 [] =
      (True, 1, 2, ''get_qps'')"
    by code_simp
  have p3: "parse_app_pegasus_perf_counter_name ''replica*app.pegasus*get_qps@1.3'' 0 0 [] =
      (True, 1, 3, ''get_qps'')"
    by code_simp
  have p4: "parse_app_pegasus_perf_counter_name ''replica*app.pegasus*other@1.0'' 0 0 [] =
      (True, 1, 0, ''other'')"
    by code_simp
  have parsed: "parse_app_pegasus_perf_counter_name (m_name ?m) 0 0 [] = (True, 1, 1, ''get_qps'')"
    using p1 by simp
  have 1: "add_counter_all [(1, ?pcs)] [(1, 0)] 11 ?m ?rows =
      Inr (?rows[0 := snd (update_app_pegasus_perf_counter (?rows ! 0) ''get_qps'' (m_value ?m))])"
    using counter_is_discarded_or_added [OF parsed,
        where app_partitions = "[(1, ?pcs)]" and pcs = ?pcs
        and app_row_idx = "[(1, 0)]" and node = 11 and j = 0 and rows = ?rows,
        THEN conjunct2, THEN conjunct1]
    by simp
  have 2: "add_counter_all [(1, ?pcs)] [(1, 0)] 10 ?m ?rows = Inr ?rows"
    using counter_is_discarded_or_added [OF parsed,
        where app_partitions = "[(1, ?pcs)]" and pcs = ?pcs
        and app_row_idx = "[(1, 0)]" and node = 10 and j = 0 and rows = ?rows,
        THEN conjunct2, THEN conjunct1]
    by simp
  have 3: "add_counter_one 1 2 ?pcs 11 ?m ?rows2 =
      Inr (?rows2[nat 1 := snd (update_app_pegasus_perf_counter (?rows2 ! nat 1) ''get_qps'' (m_value ?m))])"
    using counter_is_discarded_or_added [OF parsed,
        where rows = ?rows2 and app_id = 1
        and partition_count = 2 and partitions = ?pcs and node = 11,
        THEN conjunct2, THEN conjunct2, THEN conjunct1]
    by simp
  have 4: "add_counter_one 2 2 ?pcs 11 ?m ?rows2 = Inl Assertion_failure"
    using counter_is_discarded_or_added [OF parsed,
        where rows = ?rows2 and app_id = 2
        and partition_count = 2 and partitions = ?pcs and node = 11,
        THEN conjunct2, THEN conjunct2, THEN conjunct2, THEN conjunct1]
    by simp
  let ?es = "[Caller_step, Caller_step, Caller_step, Caller_step, Caller_step,
      Callback 2 \<lparr>reply_err = ERR_OK, reply_resp = ''c''\<rparr>,
      Callback 0 \<lparr>reply_err = ERR_OK, reply_resp = ''a''\<rparr>,
      Callback 3 \<lparr>reply_err = ERR_OK, reply_resp = ''d''\<rparr>,
      Callback 1 \<lparr>reply_err = ERR_OK, reply_resp = ''b''\<rparr>,
      Caller_step, Caller_step, Caller_step, Caller_step, Caller_step]"
  let ?ia = "\<lparr>info_result = ''OK'', info_counters =
                [\<lparr>m_name = ''replica*app.pegasus*get_qps@1.0'', m_value = 10 :: real\<rparr>,
                 \<lparr>m_name = ''replica*app.pegasus*get_qps@1.1'', m_value = 7\<rparr>,
                 \<lparr>m_name = ''replica*app.pegasus*other@1.0'', m_value = 5\<rparr>]\<rparr>"
  let ?ib = "\<lparr>info_result = ''OK'', info_counters =
                [\<lparr>m_name = ''replica*app.pegasus*get_qps@1.1'', m_value = 10 :: real\<rparr>]\<rparr>"
  let ?ic = "\<lparr>info_result = ''OK'', info_counters =
                [\<lparr>m_name = ''replica*app.pegasus*get_qps@1.2'', m_value = 10 :: real\<rparr>]\<rparr>"
  let ?id = "\<lparr>info_result = ''OK'', info_counters =
                [\<lparr>m_name = ''replica*app.pegasus*get_qps@1.3'', m_value = 10 :: real\<rparr>]\<rparr>"
  let ?decode = "\<lambda>s. if s = ''a'' then Some ?ia else if s = ''b'' then Some ?ib
          else if s = ''c'' then Some ?ic else if s = ''d'' then Some ?id else None"
  let ?parts = "[\<lparr>primary = 10\<rparr>, \<lparr>primary = 11\<rparr>, \<lparr>primary = 12\<rparr>, \<lparr>primary = 13\<rparr>]"
  let ?apps = "[\<lparr>ai_app_id = 1, ai_app_name = ''t'', ai_partition_count = 4\<rparr>]"
  let ?sc = "\<lparr>meta_list = [],
      ddl_list_nodes = (ERR_OK, [(10, NS_ALIVE), (11, NS_ALIVE), (12, NS_ALIVE), (13, NS_ALIVE)]),
      ddl_list_apps = (ERR_OK, ?apps),
      ddl_list_app = (\<lambda>n. (ERR_OK, 1, 4, ?parts))\<rparr>"
  let ?nodes = "[\<lparr>desc = ''replica-server'', address = 10\<rparr>, \<lparr>desc = ''replica-server'', address = 11\<rparr>,
      \<lparr>desc = ''replica-server'', address = 12\<rparr>, \<lparr>desc = ''replica-server'', address = 13\<rparr>]"
  let ?results = "[(True, ''a''), (True, ''b''), (True, ''c''), (True, ''d'')]"
  let ?infos = "[?ia, ?ib, ?ic, ?id]"
  let ?c = "\<lparr>cmd = ''perf-counters'', arguments = [counters_pattern None]\<rparr>"
  have h1: "ddl_list_apps ?sc = (ERR_OK, ?apps)" by simp
  have h2: "fill_nodes ?sc ''replica-server'' [] = (True, ?nodes)"
    by (simp add: fill_nodes_def)
  have "map_option (\<lambda>s. (fo_pc s, fo_results s)) (fan_run ?nodes ?c (fan_start ?nodes []) ?es) =
      Some (Joined, ?results)"
    by (simp add: fan_start_def fan_step_def resize_def remote_calls_def callback_def
        reply_result_def ERR_OK_def)
  then obtain s where "fan_run ?nodes ?c (fan_start ?nodes []) ?es = Some s"
    and "fo_pc s = Joined" and "fo_results s = ?results"
    by (auto simp del: fan_run.simps)
  then have h3: "call_remote_command ?es ?sc ?nodes ?c [] = Some ?results"
    unfolding call_remote_command_def by (simp del: fan_run.simps)
  have h4: "collect_app_partitions ?sc ?apps [] = Inr (Some [(1, ?parts)])"
    by (simp add: ERR_OK_def)
  have h5: "name_rows ?apps 0 (resize (length [(1::int, ?parts)]) new_row_data ([] :: real row_data list)) [] =
      Inr ([new_row_data\<lparr>row_name := ''t''\<rparr>], [(1, 0)])"
    by (simp add: resize_def)
  have h6: "length ?infos \<le> length ?nodes" by simp
  have h7: "\<forall>i<length ?infos. fst (?results ! i) \<and> ?decode (snd (?results ! i)) = Some (?infos ! i) \<and>
           info_result (?infos ! i) = ''OK''"
    by (simp add: All_less_Suc numeral_eq_Suc)
  have h8: "length ?infos < length ?nodes \<longrightarrow>
           \<not> fst (?results ! length ?infos) \<or> ?decode (snd (?results ! length ?infos)) = None \<or>
           (\<exists>info. ?decode (snd (?results ! length ?infos)) = Some info \<and> info_result info \<noteq> ''OK'')"
    by simp
  note W = counter_is_discarded_or_added [OF parsed,
      where sc = ?sc and apps = ?apps and nodes = ?nodes and es = ?es and results = ?results
      and aps = "[(1, ?parts)]" and rows = "[]" and named = "[new_row_data\<lparr>row_name := ''t''\<rparr>]"
      and idx = "[(1, 0)]" and infos = ?infos and decode = ?decode]
  note H = conjI [OF h1 conjI [OF h2 conjI [OF h3 conjI [OF h4 conjI [OF h5 conjI [OF h6
      conjI [OF h7 h8]]]]]]]
  note E = W [THEN conjunct2, THEN conjunct2, THEN conjunct2, THEN conjunct2, THEN conjunct2,
      THEN conjunct2, THEN conjunct2, THEN conjunct2, THEN conjunct2, THEN conjunct1, THEN mp, OF H]
  have 5: "get_app_stat ?es ?decode ?sc [] ([] :: real row_data list) =
      Some (Inr (True, [new_row_data\<lparr>row_name := ''t'', get_qps := 40\<rparr>]))"
    unfolding E
    by (simp add: add_counter_all_def p0 p1 p2 p3 p4 vec_at_def
        update_app_pegasus_perf_counter_def new_row_data_def)
  have e1: "add_counter_all [(1, ?pcs)] [(1, 0)] 11 ?m ?rows = Inr [new_row_data\<lparr>row_name := ''t'', get_qps := 10\<rparr>]"
    unfolding 1 by (simp add: update_app_pegasus_perf_counter_def new_row_data_def)
  have e3: "add_counter_one 1 2 ?pcs 11 ?m ?rows2 =
      Inr [new_row_data\<lparr>row_name := ''0''\<rparr>, new_row_data\<lparr>row_name := ''1'', get_qps := 10\<rparr>]"
    unfolding 3 by (simp add: update_app_pegasus_perf_counter_def new_row_data_def)
  let ?app = "\<lparr>ai_app_id = 1, ai_app_name = ''t'', ai_partition_count = 4\<rparr>"
  let ?c1 = "\<lparr>cmd = ''perf-counters'', arguments = [counters_pattern (Some (ai_app_id ?app))]\<rparr>"
  have g0: "''t'' \<noteq> []" by simp
  have g1: "List.find (\<lambda>app. ai_app_name app = ''t'') ?apps = Some ?app" by simp
  have "map_option (\<lambda>s. (fo_pc s, fo_results s)) (fan_run ?nodes ?c1 (fan_start ?nodes []) ?es) =
      Some (Joined, ?results)"
    by (simp add: fan_start_def fan_step_def resize_def remote_calls_def callback_def
        reply_result_def ERR_OK_def)
  then obtain s1 where "fan_run ?nodes ?c1 (fan_start ?nodes []) ?es = Some s1"
    and "fo_pc s1 = Joined" and "fo_results s1 = ?results"
    by (auto simp del: fan_run.simps)
  then have g3: "call_remote_command ?es ?sc ?nodes ?c1 [] = Some ?results"
    unfolding call_remote_command_def by (simp del: fan_run.simps)
  have g4: "0 \<le> ai_partition_count ?app" by simp
  have g5: "ddl_list_app ?sc ''t'' = (ERR_OK, ai_app_id ?app, ai_partition_count ?app, ?parts)"
    by simp
  note W1 = counter_is_discarded_or_added [OF parsed,
      where sc = ?sc and apps = ?apps and nodes = ?nodes and es = ?es and results = ?results
      and app_name = "''t''" and app = ?app and partitions = ?parts and rows = "[]"
      and infos = ?infos and decode = ?decode]
  note H1 = conjI [OF g0 conjI [OF h1 conjI [OF g1 conjI [OF h2 conjI [OF g3 conjI [OF g4
      conjI [OF g5 conjI [OF h6 conjI [OF h7 h8]]]]]]]]]
  note E1 = W1 [THEN conjunct2, THEN conjunct2, THEN conjunct2, THEN conjunct2, THEN conjunct2,
      THEN conjunct2, THEN conjunct2, THEN conjunct2, THEN conjunct2, THEN conjunct2, THEN mp, OF H1]
  have 6: "get_app_stat ?es ?decode ?sc ''t'' ([] :: real row_data list) =
     Some (Inr (True, [new_row_data\<lparr>row_name := ''0'', get_qps := 10\<rparr>,
                       new_row_data\<lparr>row_name := ''1'', get_qps := 10\<rparr>,
                       new_row_data\<lparr>row_name := ''2'', get_qps := 10\<rparr>,
                       new_row_data\<lparr>row_name := ''3'', get_qps := 10\<rparr>]))"
    unfolding E1
    by (simp add: add_counter_one_def p0 p1 p2 p3 p4 vec_at_def name_partition_rows_def
        to_decimal_def resize_def upt_rec numeral_eq_Suc
        update_app_pegasus_perf_counter_def new_row_data_def)
  from 5 e1 2 e3 4 6 show ?thesis by (intro conjI)
qed

text \<open>
  Claim C10: with no application named, the partition index of a counter of a listed
  application is used as an index into the application's partition configurations with no
  check: an index that is not below their number (or is negative) is an access out of
  bounds, so that the access is in bounds only if the index is below the number of
  partitions. With one application named, an index that is not below the partition count
  fails the assertion before the access.
\<close>

theorem whole_entity_partition_lookup_unchecked:
  assumes "parse_app_pegasus_perf_counter_name (m_name m) 0 0 [] = (True, a, p, cn)"
    and "map_of app_partitions a = Some pcs"
  shows
    "(int (length pcs) \<le> p \<longrightarrow>
        add_counter_all app_partitions app_row_idx node m rows = Inl Out_of_bounds) \<and>
     (p < 0 \<longrightarrow>
        add_counter_all app_partitions app_row_idx node m rows = Inl Out_of_bounds) \<and>
     (add_counter_all app_partitions app_row_idx node m rows \<noteq> Inl Out_of_bounds \<longrightarrow>
        0 \<le> p \<and> p < int (length pcs)) \<and>
     (partition_count \<le> p \<longrightarrow>
        add_counter_one a partition_count partitions node m rows = Inl Assertion_failure)"
proof -
  note all = add_counter_all_cases [OF assms(1), of app_partitions app_row_idx node rows]
  note one = add_counter_one_cases [OF assms(1), of a partition_count partitions node rows]
  have oob: "add_counter_all app_partitions app_row_idx node m rows = Inl Out_of_bounds"
    if "vec_at pcs p = None"
    unfolding all using that assms(2) by simp
  have 1: "add_counter_all app_partitions app_row_idx node m rows = Inl Out_of_bounds"
    if "int (length pcs) \<le> p"
    using that by (intro oob vec_at_out) simp
  have 2: "add_counter_all app_partitions app_row_idx node m rows = Inl Out_of_bounds"
    if "p < 0"
    using that by (intro oob vec_at_out) simp
  have 3: "0 \<le> p \<and> p < int (length pcs)"
    if "add_counter_all app_partitions app_row_idx node m rows \<noteq> Inl Out_of_bounds"
  proof (rule ccontr)
    assume "\<not> (0 \<le> p \<and> p < int (length pcs))"
    then have "p < 0 \<or> int (length pcs) \<le> p" by arith
    then show False using 1 2 that by blast
  qed
  have 4: "add_counter_one a partition_count partitions node m rows = Inl Assertion_failure"
    if "partition_count \<le> p"
    unfolding one using that by simp
  show ?thesis using 1 2 3 4 by blast
qed

text \<open>
  Claim C10 at a counter of partition 5 of application 1, which has two partitions.
\<close>

theorem whole_entity_partition_lookup_unchecked_witness:
  "map_of [(1, [\<lparr>primary = 10\<rparr>, \<lparr>primary = 11\<rparr>])] (1::int) = Some [\<lparr>primary = 10\<rparr>, \<lparr>primary = 11\<rparr>] \<and>
   parse_app_pegasus_perf_counter_name ''replica*app.pegasus*get_qps@1.5'' 0 0 [] =
     (True, 1, 5, ''get_qps'') \<and>
   add_counter_all [(1, [\<lparr>primary = 10\<rparr>, \<lparr>primary = 11\<rparr>])] [(1, 0)] 11
     \<lparr>m_name = ''replica*app.pegasus*get_qps@1.5'', m_value = 10\<rparr>
     [(new_row_data :: real row_data), new_row_data] = Inl Out_of_bounds \<and>
   add_counter_one 1 2 [\<lparr>primary = 10\<rparr>, \<lparr>primary = 11\<rparr>] 11
     \<lparr>m_name = ''replica*app.pegasus*get_qps@1.5'', m_value = 10\<rparr>
     [(new_row_data :: real row_data), new_row_data] = Inl Assertion_failure"
proof -
  let ?m = "\<lparr>m_name = ''replica*app.pegasus*get_qps@1.5'', m_value = 10 :: real\<rparr>"
  let ?pcs = "[\<lparr>primary = 10\<rparr>, \<lparr>primary = 11\<rparr>]"
  have parsed: "parse_app_pegasus_perf_counter_name (m_name ?m) 0 0 [] = (True, 1, 5, ''get_qps'')"
    by code_simp
  have found: "map_of [(1, ?pcs)] (1::int) = Some ?pcs"
    by simp
  from whole_entity_partition_lookup_unchecked [OF parsed found, where app_row_idx = "[(1, 0)]"
      and node = 11 and rows = "[new_row_data, new_row_data]" and partition_count = 2
      and partitions = ?pcs]
  show ?thesis using parsed found by simp
qed

section \<open>Properties of the scan pipeline\<close>

subsection \<open>Steps and runs\<close>

lemma run_with_invariant:
  assumes "run_with f w es = Some w'" and "I w"
    and "\<And>w e w'. I w \<Longrightarrow> f w e = Some w' \<Longrightarrow> I w'"
  shows "I w'"
  using assms(1,2)
proof (induction es arbitrary: w)
  case Nil
  then show ?case by simp
next
  case (Cons e es)
  then obtain w1 where 1: "f w e = Some w1" and 2: "run_with f w1 es = Some w'"
    by (auto split: option.splits)
  from assms(3) [OF Cons.prems(2) 1] have "I w1" .
  with 2 show ?case by (rule Cons.IH)
qed

lemma exec_threads: "threads (snd (exec p w)) = threads w"
  by (cases p) (simp_all split: option.splits)

lemma exec_calls:
  "calls (snd (exec p w)) = calls w \<or>
   (\<exists>k. p = Call_async_next k \<and> calls (snd (exec p w)) = calls w @ [(Scanner_async_next, False)]) \<or>
   (\<exists>c r. p = Call_row_call c r \<and>
      calls (snd (exec p w)) = calls w @ [(Row_call c r (timeout_ms (ctx w)), False)])"
  by (cases p) (auto split: option.splits)

lemma step_Run:
  assumes "step w (Run t) = Some w'"
  shows "t < length (threads w) \<and> running (threads w ! t) \<and>
     w' = (snd (exec (threads w ! t) w))\<lparr>threads := (threads w)[t := fst (exec (threads w ! t) w)]\<rparr>"
  using assms exec_threads [of "threads w ! t" w]
  by (auto simp add: step_def split: if_splits prod.splits)

lemma step_Complete:
  assumes "step w (Complete i ret r) = Some w'"
  shows "i < length (calls w) \<and> \<not> snd (calls w ! i) \<and>
     w' = w\<lparr>calls := (calls w)[i := (fst (calls w ! i), True)],
            threads := threads w @ [callback_of (ctx w) (fst (calls w ! i)) ret r]\<rparr>"
  using assms by (simp add: step_def split: if_splits)

lemma step_Other: "step w Other_split_fails = Some w' \<Longrightarrow> w' = w\<lparr>error_occurred := True\<rparr>"
  by (simp add: step_def)

subsection \<open>The error line\<close>

lemma exec_stderr:
  "stderr (snd (exec p w)) =
     (if about_to_print p then stderr w @ [(case p of Print_error what err \<Rightarrow> (what, split_id (ctx w), err))]
      else stderr w)"
  by (cases p) (simp_all add: about_to_print_def split: option.splits)

lemma exec_completed:
  "split_completed (ctx (snd (exec p w))) \<longleftrightarrow>
     split_completed (ctx w) \<or> p = Store_completed \<or> (\<exists>what err. p = Exchange_completed what err)"
  by (cases p) (simp_all split: option.splits)

lemma exec_error:
  "error_occurred (snd (exec p w)) \<longleftrightarrow> error_occurred w \<or> p = Store_error"
  by (cases p) (simp_all split: option.splits)

lemma exec_about_to_print:
  "about_to_print (fst (exec p w)) \<longleftrightarrow>
     (\<exists>what err. p = Exchange_completed what err) \<and> \<not> split_completed (ctx w)"
  by (cases p) (simp_all add: about_to_print_def leave_def split: option.splits cont.splits)

lemma exec_Store_error:
  "fst (exec p w) = Store_error \<longleftrightarrow> about_to_print p"
  by (cases p) (simp_all add: about_to_print_def leave_def split: option.splits cont.splits)

lemma about_to_print_not_exchange:
  "about_to_print p \<Longrightarrow> p \<noteq> Exchange_completed what err \<and> p \<noteq> Store_completed \<and> p \<noteq> Store_error"
  by (cases p) (simp_all add: about_to_print_def)

lemma callback_of_not_print:
  "\<not> about_to_print (callback_of c a ret r) \<and> callback_of c a ret r \<noteq> Store_error"
  by (simp add: callback_of_def async_next_callback_def row_call_callback_def about_to_print_def
      split: async_call.splits scan_data_operator.splits)

lemma one_error_line_start: "\<not> split_completed c \<Longrightarrow> one_error_line (start c e)"
  by (simp add: one_error_line_def start_def about_to_print_def)

lemma one_error_line_Run:
  assumes inv: "one_error_line w" and st: "step w (Run t) = Some w'"
  shows "one_error_line w'"
proof -
  let ?p = "threads w ! t"
  let ?q = "fst (exec ?p w)"
  from step_Run [OF st] have t: "t < length (threads w)"
    and w': "w' = (snd (exec ?p w))\<lparr>threads := (threads w)[t := ?q]\<rparr>"
    by simp_all
  have th: "threads w' = (threads w)[t := ?q]" and len: "length (threads w') = length (threads w)"
    by (simp_all add: w')
  have err: "stderr w' = (if about_to_print ?p
      then stderr w @ [(case ?p of Print_error what err \<Rightarrow> (what, split_id (ctx w), err))]
      else stderr w)"
    by (simp add: w' exec_stderr)
  have comp: "split_completed (ctx w') \<longleftrightarrow>
      split_completed (ctx w) \<or> ?p = Store_completed \<or> (\<exists>what err. ?p = Exchange_completed what err)"
    by (simp add: w' exec_completed)
  have eo: "error_occurred w' \<longleftrightarrow> error_occurred w \<or> ?p = Store_error"
    by (simp add: w' exec_error)
  have nth: "\<And>u. u < length (threads w) \<Longrightarrow> threads w' ! u = (if u = t then ?q else threads w ! u)"
    using t by (simp add: th nth_list_update)
  from inv have i1: "length (stderr w) \<le> 1"
    and i2: "\<And>u. u < length (threads w) \<Longrightarrow> about_to_print (threads w ! u) \<Longrightarrow>
        stderr w = [] \<and> (\<forall>u'<length (threads w). about_to_print (threads w ! u') \<longrightarrow> u' = u)"
    and i3: "stderr w \<noteq> [] \<or> (\<exists>u<length (threads w). about_to_print (threads w ! u)) \<Longrightarrow>
        split_completed (ctx w)"
    and i4: "stderr w \<noteq> [] \<Longrightarrow>
        error_occurred w \<or> (\<exists>u<length (threads w). threads w ! u = Store_error)"
    unfolding one_error_line_def by blast+
  show ?thesis
  proof (cases "about_to_print ?p")
    case True
    note pr = this
    from i2 [OF t pr] have e0: "stderr w = []"
      and uniq: "\<And>u. u < length (threads w) \<Longrightarrow> about_to_print (threads w ! u) \<Longrightarrow> u = t"
      by blast+
    from pr have q: "?q = Store_error" by (simp add: exec_Store_error)
    have nopr: "\<And>u. u < length (threads w) \<Longrightarrow> \<not> about_to_print (threads w' ! u)"
    proof -
      fix u assume u: "u < length (threads w)"
      show "\<not> about_to_print (threads w' ! u)"
      proof (cases "u = t")
        case True
        then show ?thesis using u q by (simp add: nth about_to_print_def)
      next
        case False
        then show ?thesis using u uniq [OF u] by (auto simp add: nth)
      qed
    qed
    have c: "split_completed (ctx w')"
      using i3 t pr comp by blast
    have "threads w' ! t = Store_error"
      using t q by (simp add: nth)
    then have s: "\<exists>u<length (threads w'). threads w' ! u = Store_error"
      using t len by auto
    show ?thesis
      unfolding one_error_line_def
      using e0 pr nopr c s by (simp add: err len)
  next
    case False
    note npr = this
    have e: "stderr w' = stderr w" using npr by (simp add: err)
    show ?thesis
    proof (cases "about_to_print ?q")
      case True
      then have ex: "\<exists>what err. ?p = Exchange_completed what err" and nc: "\<not> split_completed (ctx w)"
        by (simp_all add: exec_about_to_print)
      from nc i3 have e0: "stderr w = []"
        and none: "\<And>u. u < length (threads w) \<Longrightarrow> \<not> about_to_print (threads w ! u)"
        by blast+
      have only: "\<And>u. u < length (threads w) \<Longrightarrow> about_to_print (threads w' ! u) \<Longrightarrow> u = t"
      proof -
        fix u assume u: "u < length (threads w)" and a: "about_to_print (threads w' ! u)"
        show "u = t"
        proof (rule ccontr)
          assume "u \<noteq> t"
          then have "threads w' ! u = threads w ! u" using u by (simp add: nth)
          with a none [OF u] show False by simp
        qed
      qed
      have c: "split_completed (ctx w')" using ex comp by blast
      show ?thesis
        unfolding one_error_line_def
        using e0 only c by (auto simp add: e len)
    next
      case False
      note nq = this
      have same: "\<And>u. u < length (threads w) \<Longrightarrow>
          about_to_print (threads w' ! u) \<longleftrightarrow> u \<noteq> t \<and> about_to_print (threads w ! u)"
        using nq npr by (auto simp add: nth)
      have c: "split_completed (ctx w) \<Longrightarrow> split_completed (ctx w')"
        using comp by blast
      have se: "stderr w \<noteq> [] \<Longrightarrow>
          error_occurred w' \<or> (\<exists>u<length (threads w'). threads w' ! u = Store_error)"
      proof -
        assume "stderr w \<noteq> []"
        from i4 [OF this] show ?thesis
        proof
          assume "error_occurred w"
          then show ?thesis using eo by blast
        next
          assume "\<exists>u<length (threads w). threads w ! u = Store_error"
          then obtain u where u: "u < length (threads w)" and s: "threads w ! u = Store_error"
            by blast
          show ?thesis
          proof (cases "u = t")
            case True
            then have "?p = Store_error" using s by simp
            then show ?thesis using eo by blast
          next
            case False
            then have "threads w' ! u = Store_error" using u s by (simp add: nth)
            then show ?thesis using u len by auto
          qed
        qed
      qed
      show ?thesis
        unfolding one_error_line_def
      proof (intro conjI allI impI)
        show "length (stderr w') \<le> 1" using i1 e by simp
      next
        fix u assume u: "u < length (threads w')" and a: "about_to_print (threads w' ! u)"
        from u len have u': "u < length (threads w)" by simp
        from same [OF u'] a have ut: "u \<noteq> t" and a': "about_to_print (threads w ! u)" by blast+
        from i2 [OF u' a'] have e0: "stderr w = []"
          and uq: "\<forall>v<length (threads w). about_to_print (threads w ! v) \<longrightarrow> v = u"
          by blast+
        show "stderr w' = []" using e0 e by simp
      next
        fix u v assume u: "u < length (threads w')" and a: "about_to_print (threads w' ! u)"
          and v: "v < length (threads w')" and b: "about_to_print (threads w' ! v)"
        from u v len have u': "u < length (threads w)" and v': "v < length (threads w)" by simp_all
        from same [OF u'] a have a': "about_to_print (threads w ! u)" by blast
        from same [OF v'] b have b': "about_to_print (threads w ! v)" by blast
        from i2 [OF u' a'] v' b' show "v = u" by blast
      next
        assume "stderr w' \<noteq> [] \<or> (\<exists>u<length (threads w'). about_to_print (threads w' ! u))"
        then have "stderr w \<noteq> [] \<or> (\<exists>u<length (threads w). about_to_print (threads w ! u))"
          using e same len by auto
        from i3 [OF this] c show "split_completed (ctx w')" by blast
      next
        assume "stderr w' \<noteq> []"
        then have "stderr w \<noteq> []" using e by simp
        from se [OF this]
        show "error_occurred w' \<or> (\<exists>u<length (threads w'). threads w' ! u = Store_error)" .
      qed
    qed
  qed
qed

lemma one_error_line_Complete:
  assumes inv: "one_error_line w" and st: "step w (Complete i ret r) = Some w'"
  shows "one_error_line w'"
proof -
  let ?q = "callback_of (ctx w) (fst (calls w ! i)) ret r"
  from step_Complete [OF st]
  have w': "w' = w\<lparr>calls := (calls w)[i := (fst (calls w ! i), True)], threads := threads w @ [?q]\<rparr>"
    by simp
  have q: "\<not> about_to_print ?q" "?q \<noteq> Store_error"
    using callback_of_not_print by blast+
  have nth: "\<And>u. u < length (threads w') \<Longrightarrow>
      about_to_print (threads w' ! u) \<longleftrightarrow> u < length (threads w) \<and> about_to_print (threads w ! u)"
    using q by (auto simp add: w' nth_append)
  have nth2: "\<And>u. u < length (threads w) \<Longrightarrow> threads w' ! u = threads w ! u"
    by (simp add: w' nth_append)
  have len: "length (threads w') = Suc (length (threads w))" by (simp add: w')
  have rest: "stderr w' = stderr w" "ctx w' = ctx w" "error_occurred w' = error_occurred w"
    by (simp_all add: w')
  from inv have i1: "length (stderr w) \<le> 1"
    and i2: "\<And>u. u < length (threads w) \<Longrightarrow> about_to_print (threads w ! u) \<Longrightarrow>
        stderr w = [] \<and> (\<forall>u'<length (threads w). about_to_print (threads w ! u') \<longrightarrow> u' = u)"
    and i3: "stderr w \<noteq> [] \<or> (\<exists>u<length (threads w). about_to_print (threads w ! u)) \<Longrightarrow>
        split_completed (ctx w)"
    and i4: "stderr w \<noteq> [] \<Longrightarrow>
        error_occurred w \<or> (\<exists>u<length (threads w). threads w ! u = Store_error)"
    unfolding one_error_line_def by blast+
  show ?thesis
    unfolding one_error_line_def rest
  proof (intro conjI allI impI)
    show "length (stderr w) \<le> 1" by (rule i1)
  next
    fix u assume u: "u < length (threads w')" and a: "about_to_print (threads w' ! u)"
    from nth [OF u] a have u': "u < length (threads w)" and a': "about_to_print (threads w ! u)"
      by blast+
    from i2 [OF u' a'] show "stderr w = []" by blast
  next
    fix u v assume u: "u < length (threads w')" and a: "about_to_print (threads w' ! u)"
      and v: "v < length (threads w')" and b: "about_to_print (threads w' ! v)"
    from nth [OF u] a have u': "u < length (threads w)" and a': "about_to_print (threads w ! u)"
      by blast+
    from nth [OF v] b have v': "v < length (threads w)" and b': "about_to_print (threads w ! v)"
      by blast+
    from i2 [OF u' a'] v' b' show "v = u" by blast
  next
    assume "stderr w \<noteq> [] \<or> (\<exists>u<length (threads w'). about_to_print (threads w' ! u))"
    then have "stderr w \<noteq> [] \<or> (\<exists>u<length (threads w). about_to_print (threads w ! u))"
      using nth by blast
    then show "split_completed (ctx w)" by (rule i3)
  next
    assume "stderr w \<noteq> []"
    from i4 [OF this]
    show "error_occurred w \<or> (\<exists>u<length (threads w'). threads w' ! u = Store_error)"
      using nth2 len by (metis less_Suc_eq)
  qed
qed

lemma one_error_line_step:
  assumes "one_error_line w" and "step w e = Some w'"
  shows "one_error_line w'"
proof (cases e)
  case (Run t)
  with assms show ?thesis using one_error_line_Run by blast
next
  case (Complete i ret r)
  with assms show ?thesis using one_error_line_Complete by blast
next
  case Other_split_fails
  with assms have "w' = w\<lparr>error_occurred := True\<rparr>"
    using step_Other by blast
  with assms(1) show ?thesis
    by (simp add: one_error_line_def)
qed

lemma one_error_line_run:
  assumes "run (start c e) es = Some w" and "\<not> split_completed c"
  shows "one_error_line w"
proof -
  from assms(2) have "one_error_line (start c e)" by (rule one_error_line_start)
  with assms(1) show ?thesis
    unfolding run_def by (rule run_with_invariant) (rule one_error_line_step)
qed

text \<open>
  At most one error line is printed, in every state that a split reaches, whatever the
  callbacks do and however their steps interleave. A failing callback exchanges
  \<open>split_completed\<close> for \<open>true\<close> and goes on to print only if the exchange returned
  \<open>false\<close>; once a line is printed \<open>split_completed\<close> is set, the thread that printed
  has set \<open>error_occurred\<close> or does so in its next step, and no thread is about to print.
\<close>

proposition at_most_one_error_line:
  assumes "run (start (new_scan_data_context op' sid m tmo stat topc) e) es = Some w"
  shows "length (stderr w) \<le> 1 \<and>
     (stderr w \<noteq> [] \<longrightarrow>
        split_completed (ctx w) \<and> (error_occurred w \<or> Store_error \<in> set (threads w)) \<and>
        (\<forall>what err. Print_error what err \<notin> set (threads w))) \<and>
     (\<forall>what err. Print_error what err \<in> set (threads w) \<longrightarrow>
        split_completed (ctx w) \<and> stderr w = []) \<and>
     fst (exec (Exchange_completed what err) w) =
       (if split_completed (ctx w) then Decr_request_count else Print_error what err)"
proof -
  have "\<not> split_completed (new_scan_data_context op' sid m tmo stat topc)"
    by (simp add: new_scan_data_context_def)
  with assms have "one_error_line w" by (rule one_error_line_run)
  then have i1: "length (stderr w) \<le> 1"
    and i2: "\<And>u. u < length (threads w) \<Longrightarrow> about_to_print (threads w ! u) \<Longrightarrow> stderr w = []"
    and i3: "stderr w \<noteq> [] \<or> (\<exists>u<length (threads w). about_to_print (threads w ! u)) \<Longrightarrow>
        split_completed (ctx w)"
    and i4: "stderr w \<noteq> [] \<Longrightarrow>
        error_occurred w \<or> (\<exists>u<length (threads w). threads w ! u = Store_error)"
    unfolding one_error_line_def by blast+
  have pr: "split_completed (ctx w) \<and> stderr w = []" if "Print_error a b \<in> set (threads w)" for a b
  proof -
    from that obtain u where u: "u < length (threads w)" and p: "threads w ! u = Print_error a b"
      by (auto simp add: in_set_conv_nth)
    then have "about_to_print (threads w ! u)" by (simp add: about_to_print_def)
    with u i2 i3 show ?thesis by blast
  qed
  have se: "error_occurred w \<or> Store_error \<in> set (threads w)" if "stderr w \<noteq> []"
    using i4 [OF that] by (auto simp add: in_set_conv_nth)
  have ex: "fst (exec (Exchange_completed what err) w) =
       (if split_completed (ctx w) then Decr_request_count else Print_error what err)"
    by simp
  show ?thesis
    using i1 i3 pr se ex by blast
qed

text \<open>
  Two calls of \<open>async_next\<close> that fail at the same time: both callbacks are started before
  either takes a step, the first exchange returns \<open>false\<close> and the second \<open>true\<close>; the
  first callback prints the one line and sets \<open>error_occurred\<close>.
\<close>

proposition at_most_one_error_line_concurrent_failures:
  "\<exists>w w'.
     run (start (new_scan_data_context SCAN_COPY 7 2 1000 False 0) False)
       [Run 0, Run 0, Run 0, Run 0, Run 0, Run 0, Run 0, Run 0, Run 0, Run 0, Run 0, Run 0, Run 0,
        Complete 0 (PERR_OTHER 5) ([], [], []), Complete 1 (PERR_OTHER 6) ([], [], []),
        Run 1, Run 2] = Some w \<and>
     threads w = [Finished, Print_error ''scan next'' (PERR_OTHER 5), Decr_request_count] \<and>
     stderr w = [] \<and> split_completed (ctx w) \<and>
     run w [Run 1, Run 2, Run 1, Run 1] = Some w' \<and>
     threads w' = [Finished, Finished, Finished] \<and>
     stderr w' = [(''scan next'', 7, PERR_OTHER 5)] \<and> length (stderr w') \<le> 1 \<and>
     split_completed (ctx w') \<and> error_occurred w'"
proof -
  let ?s = "start (new_scan_data_context SCAN_COPY 7 2 1000 False 0) False"
  let ?es = "[Run 0, Run 0, Run 0, Run 0, Run 0, Run 0, Run 0, Run 0, Run 0, Run 0, Run 0, Run 0, Run 0,
        Complete 0 (PERR_OTHER 5) ([], [], []), Complete 1 (PERR_OTHER 6) ([], [], []),
        Run 1, Run 2]"
  have "map_option (\<lambda>w. (threads w, stderr w)) (run ?s ?es) =
      Some ([Finished, Print_error ''scan next'' (PERR_OTHER 5), Decr_request_count], [])"
    by code_simp
  then obtain w where r: "run ?s ?es = Some w"
    and t: "threads w = [Finished, Print_error ''scan next'' (PERR_OTHER 5), Decr_request_count]"
    and s: "stderr w = []"
    by auto
  have "map_option (\<lambda>w. (threads w, stderr w, error_occurred w))
      (run ?s (?es @ [Run 1, Run 2, Run 1, Run 1])) =
      Some ([Finished, Finished, Finished], [(''scan next'', 7, PERR_OTHER 5)], True)"
    by code_simp
  then obtain w' where r': "run ?s (?es @ [Run 1, Run 2, Run 1, Run 1]) = Some w'"
    and t': "threads w' = [Finished, Finished, Finished]"
    and s': "stderr w' = [(''scan next'', 7, PERR_OTHER 5)]"
    and e': "error_occurred w'"
    by auto
  have app: "run a (xs @ ys) = (case run a xs of None \<Rightarrow> None | Some b \<Rightarrow> run b ys)" for a xs ys
    unfolding run_def by (induction xs arbitrary: a) (simp_all split: option.splits)
  have r2: "run w [Run 1, Run 2, Run 1, Run 1] = Some w'"
    using r' unfolding app r by simp
  from t have "Print_error ''scan next'' (PERR_OTHER 5) \<in> set (threads w)"
    by simp
  with at_most_one_error_line [OF r] have c: "split_completed (ctx w)"
    by blast
  from at_most_one_error_line [OF r'] s' have c': "length (stderr w') \<le> 1" "split_completed (ctx w')"
    by simp_all
  from r t s c r2 t' s' c' e' show ?thesis by blast
qed

text \<open>
  Claim C4 says that the first failure of a split prints the one error line and sets
  \<open>error_occurred\<close>. The code does not do so for a failure that comes after the end of
  the scan. In the first run of this copy with \<open>max_batch_count = 2\<close> the first
  \<open>async_next\<close> gives a row, for which \<open>async_set\<close> is called, the second
  \<open>async_next\<close> reports the end of the scan, which stores \<open>split_completed\<close>, and
  then the \<open>async_set\<close> fails. Its callback finds \<open>split_completed\<close> set by the
  exchange: when every callback has finished nothing is printed, \<open>error_occurred\<close> is
  \<open>false\<close> and \<open>split_rows\<close> is 0. In the second run the same \<open>async_set\<close> fails
  before the end of the scan is reported: the line is printed and \<open>error_occurred\<close> is
  set.
\<close>

theorem failed_set_after_scan_complete_is_lost:
  "map_option (\<lambda>w. (calls w, threads w, stderr w, error_occurred w, split_completed (ctx w),
                     split_rows (ctx w), split_request_count (ctx w)))
     (run (start (new_scan_data_context SCAN_COPY 7 2 1000 False 0) False)
        [Run 0, Run 0, Run 0, Run 0, Run 0, Run 0, Run 0, Run 0, Run 0, Run 0, Run 0, Run 0, Run 0,
         Complete 0 PERR_OK (''h'', ''s'', ''v''), Run 1, Run 1, Run 1,
         Complete 1 PERR_SCAN_COMPLETE ([], [], []), Run 2, Run 2,
         Complete 2 (PERR_OTHER 5) ([], [], []), Run 3, Run 3]) =
   Some ([(Scanner_async_next, True), (Scanner_async_next, True),
          (Row_call Async_set (''h'', ''s'', ''v'') 1000, True)],
         [Finished, Finished, Finished, Finished], [], False, True, 0, 0) \<and>
   map_option (\<lambda>w. (calls w, threads w, stderr w, error_occurred w, split_completed (ctx w),
                     split_rows (ctx w), split_request_count (ctx w)))
     (run (start (new_scan_data_context SCAN_COPY 7 2 1000 False 0) False)
        [Run 0, Run 0, Run 0, Run 0, Run 0, Run 0, Run 0, Run 0, Run 0, Run 0, Run 0, Run 0, Run 0,
         Complete 0 PERR_OK (''h'', ''s'', ''v''), Run 1, Run 1, Run 1,
         Complete 2 (PERR_OTHER 5) ([], [], []), Run 2, Run 2, Run 2, Run 2,
         Complete 1 PERR_SCAN_COMPLETE ([], [], []), Run 3, Run 3]) =
   Some ([(Scanner_async_next, True), (Scanner_async_next, True),
          (Row_call Async_set (''h'', ''s'', ''v'') 1000, True)],
         [Finished, Finished, Finished, Finished], [(''async set'', 7, PERR_OTHER 5)], True, True,
         0, 0)"
  by code_simp

subsection \<open>The request count\<close>

lemma exec_max_batch_count: "max_batch_count (ctx (snd (exec p w))) = max_batch_count (ctx w)"
  by (cases p) (simp_all split: option.splits)

text \<open>
  The account of the increments is kept by every step, whichever thread takes it.
\<close>

lemmas weights = own_def held_def committed_def outside_def will_call_def pending_def pending_next_def

lemma exec_held:
  "running p \<Longrightarrow>
   split_request_count (ctx (snd (exec p w))) - sum_list (map pending (calls (snd (exec p w)))) -
     held (fst (exec p w)) =
   split_request_count (ctx w) - sum_list (map pending (calls w)) - held p"
  by (cases p) (auto simp add: weights leave_def running_def split: cont.splits option.splits)

lemma exec_outside: "outside (fst (exec p w)) \<le> outside p"
  by (cases p) (auto simp add: weights leave_def split: cont.splits option.splits)

lemma exec_committed:
  "split_request_count (ctx (snd (exec p w))) + committed (fst (exec p w)) +
     sum_list (map pending_next (calls (snd (exec p w)))) \<le>
   split_request_count (ctx w) + committed p + sum_list (map pending_next (calls w)) +
     (if (\<exists>k. p = Load_request_count k) \<and> split_request_count (ctx w) < max_batch_count (ctx w)
      then 2 else 0)"
  by (cases p) (auto simp add: weights leave_def split: cont.splits option.splits)

lemma exec_will_call:
  "sum_list (map pending (calls (snd (exec p w)))) + will_call (fst (exec p w)) \<le>
   sum_list (map pending (calls w)) + will_call p +
     (if (\<exists>k. p = Load_request_count k) \<and> split_request_count (ctx w) < max_batch_count (ctx w)
      then 1 else 0)"
  by (cases p) (auto simp add: weights leave_def split: cont.splits option.splits)

lemma room:
  "0 \<le> held p + outside p - will_call p \<and>
   held (Load_request_count k) + outside (Load_request_count k) - will_call (Load_request_count k) = 1"
  by (cases p; cases k) (auto simp add: weights split: cont.splits)

lemma held_nonneg: "0 \<le> held p"
  by (cases p) (auto simp add: weights split: cont.splits)

lemma outstanding_pending: "outstanding w = sum_list (map pending (calls w))"
proof -
  have "int (length (filter (\<lambda>a. \<not> snd a) cs)) = sum_list (map pending cs)" for cs
    by (induction cs) (simp_all add: pending_def)
  then show ?thesis by (simp add: outstanding_def)
qed

lemma slack:
  "0 \<le> 2 * held p - committed p + 2 * outside p \<and>
   2 * held (Load_request_count k) - committed (Load_request_count k) +
     2 * outside (Load_request_count k) = 2"
  by (cases p; cases k) (auto simp add: weights split: cont.splits)

lemma pending_next_le: "pending_next a \<le> pending a \<and> 0 \<le> pending_next a"
  by (simp add: weights)

lemma callback_of_weights:
  "held (callback_of c a ret r) = 1 \<and> outside (callback_of c a ret r) = 0 \<and>
   committed (callback_of c a ret r) \<le> (if a = Scanner_async_next then 1 else 0) \<and>
   will_call (callback_of c a ret r) \<le> 1"
  by (simp add: callback_of_def async_next_callback_def row_call_callback_def weights
      split: async_call.splits scan_data_operator.splits)

lemma sum_list_map_update:
  fixes f :: "'a \<Rightarrow> int"
  assumes "t < length xs"
  shows "sum_list (map f (xs[t := y])) = sum_list (map f xs) - f (xs ! t) + f y"
  using assms
proof (induction xs arbitrary: t)
  case Nil
  then show ?case by simp
next
  case (Cons x xs)
  then show ?case by (cases t) simp_all
qed

lemma sum_list_map_ge_nth:
  fixes f :: "'a \<Rightarrow> int"
  assumes "\<And>x. 0 \<le> f x" and "t < length xs"
  shows "f (xs ! t) \<le> sum_list (map f xs)"
  using assms(2)
proof (induction xs arbitrary: t)
  case Nil
  then show ?case by simp
next
  case (Cons x xs)
  have nn: "0 \<le> sum_list (map f xs)"
    by (rule sum_list_nonneg) (auto simp add: assms(1))
  show ?case
  proof (cases t)
    case 0
    then show ?thesis using nn by simp
  next
    case (Suc t')
    with Cons.prems have "t' < length xs" by simp
    from Cons.IH [OF this] show ?thesis using Suc assms(1) [of x] by simp
  qed
qed

lemma sum_list_slack:
  "sum_list (map (\<lambda>p. 2 * held p - committed p + 2 * outside p) ps) =
     2 * sum_list (map held ps) - sum_list (map committed ps) + 2 * sum_list (map outside ps)"
  by (induction ps) simp_all

lemma sum_list_room:
  "sum_list (map (\<lambda>p. held p + outside p - will_call p) ps) =
     sum_list (map held ps) + sum_list (map outside ps) - sum_list (map will_call ps)"
  by (induction ps) simp_all

lemma sum_list_pending:
  "0 \<le> sum_list (map pending_next cs) \<and> sum_list (map pending_next cs) \<le> sum_list (map pending cs)"
proof (induction cs)
  case Nil
  then show ?case by simp
next
  case (Cons a cs)
  then show ?case using pending_next_le [of a] by simp
qed

lemma committed_le_held:
  assumes t: "t < length ps" and at: "ps ! t = Load_request_count k"
    and top: "sum_list (map outside ps) \<le> 1"
  shows "sum_list (map committed ps) \<le> 2 * sum_list (map held ps)"
proof -
  let ?s = "\<lambda>p. 2 * held p - committed p + 2 * outside p"
  have "?s (ps ! t) \<le> sum_list (map ?s ps)"
    using slack t by (intro sum_list_map_ge_nth) auto
  moreover have "?s (ps ! t) = 2"
    using slack [of "ps ! t" k] at by simp
  ultimately have "2 \<le> 2 * sum_list (map held ps) - sum_list (map committed ps) +
      2 * sum_list (map outside ps)"
    by (simp add: sum_list_slack)
  with top show ?thesis by simp
qed

lemma will_call_le_held:
  assumes t: "t < length ps" and at: "ps ! t = Load_request_count k"
    and top: "sum_list (map outside ps) \<le> 1"
  shows "sum_list (map will_call ps) \<le> sum_list (map held ps)"
proof -
  let ?s = "\<lambda>p. held p + outside p - will_call p"
  have "?s (ps ! t) \<le> sum_list (map ?s ps)"
    using room t by (intro sum_list_map_ge_nth) auto
  moreover have "?s (ps ! t) = 1"
    using room [of "ps ! t" k] at by simp
  ultimately have "1 \<le> sum_list (map held ps) + sum_list (map outside ps) -
      sum_list (map will_call ps)"
    by (simp add: sum_list_room)
  with top show ?thesis by simp
qed

lemma ledger_start:
  "split_request_count c = 0 \<Longrightarrow> ledger (max_batch_count c) (start c e)"
  by (simp add: ledger_def start_def weights)

lemma ledger_Run:
  assumes inv: "ledger m w" and st: "step w (Run t) = Some w'"
  shows "ledger m w'"
proof -
  let ?p = "threads w ! t"
  let ?q = "fst (exec ?p w)"
  let ?w = "snd (exec ?p w)"
  from step_Run [OF st] have t: "t < length (threads w)" and run: "running ?p"
    and w': "w' = ?w\<lparr>threads := (threads w)[t := ?q]\<rparr>"
    by simp_all
  from inv have m: "max_batch_count (ctx w) = m"
    and a: "split_request_count (ctx w) =
       sum_list (map pending (calls w)) + sum_list (map held (threads w))"
    and c: "sum_list (map outside (threads w)) \<le> 1"
    and d: "sum_list (map pending (calls w)) + sum_list (map will_call (threads w)) \<le> max 0 m"
    and b: "split_request_count (ctx w) + sum_list (map committed (threads w)) +
       sum_list (map pending_next (calls w)) \<le> max 0 (3 * m - 1)"
    unfolding ledger_def by blast+
  have m': "max_batch_count (ctx w') = m"
    using m by (simp add: w' exec_max_batch_count)
  have a': "split_request_count (ctx w') =
       sum_list (map pending (calls w')) + sum_list (map held (threads w'))"
    using exec_held [OF run, of w] a t by (simp add: w' sum_list_map_update)
  have c': "sum_list (map outside (threads w')) \<le> 1"
    using exec_outside [of ?p w] c t by (simp add: w' sum_list_map_update)
  have step: "split_request_count (ctx w') + sum_list (map committed (threads w')) +
       sum_list (map pending_next (calls w')) \<le>
     split_request_count (ctx w) + sum_list (map committed (threads w)) +
       sum_list (map pending_next (calls w)) +
     (if (\<exists>k. ?p = Load_request_count k) \<and> split_request_count (ctx w) < m then 2 else 0)"
    using exec_committed [of ?p w] t m by (simp add: w' sum_list_map_update)
  have step2: "sum_list (map pending (calls w')) + sum_list (map will_call (threads w')) \<le>
     sum_list (map pending (calls w)) + sum_list (map will_call (threads w)) +
     (if (\<exists>k. ?p = Load_request_count k) \<and> split_request_count (ctx w) < m then 1 else 0)"
    using exec_will_call [of ?p w] t m by (simp add: w' sum_list_map_update)
  have "sum_list (map pending (calls w')) + sum_list (map will_call (threads w')) \<le> max 0 m \<and>
     split_request_count (ctx w') + sum_list (map committed (threads w')) +
       sum_list (map pending_next (calls w')) \<le> max 0 (3 * m - 1)"
  proof (cases "(\<exists>k. ?p = Load_request_count k) \<and> split_request_count (ctx w) < m")
    case True
    then obtain k where k: "?p = Load_request_count k" and less: "split_request_count (ctx w) < m"
      by blast
    from committed_le_held [OF t k c]
    have 1: "sum_list (map committed (threads w)) \<le> 2 * sum_list (map held (threads w))" .
    from will_call_le_held [OF t k c]
    have 3: "sum_list (map will_call (threads w)) \<le> sum_list (map held (threads w))" .
    from sum_list_pending [of "calls w"]
    have 2: "0 \<le> sum_list (map pending_next (calls w))"
      "sum_list (map pending_next (calls w)) \<le> sum_list (map pending (calls w))"
      by simp_all
    from True step have s1: "split_request_count (ctx w') + sum_list (map committed (threads w')) +
       sum_list (map pending_next (calls w')) \<le>
     split_request_count (ctx w) + sum_list (map committed (threads w)) +
       sum_list (map pending_next (calls w)) + 2"
      by simp
    from True step2 have s2: "sum_list (map pending (calls w')) +
       sum_list (map will_call (threads w')) \<le>
     sum_list (map pending (calls w)) + sum_list (map will_call (threads w)) + 1"
      by simp
    from s1 1 2 a less have "split_request_count (ctx w') + sum_list (map committed (threads w')) +
       sum_list (map pending_next (calls w')) \<le> 3 * m - 1"
      by linarith
    then have x: "split_request_count (ctx w') + sum_list (map committed (threads w')) +
       sum_list (map pending_next (calls w')) \<le> max 0 (3 * m - 1)"
      by linarith
    from s2 3 a less have "sum_list (map pending (calls w')) +
       sum_list (map will_call (threads w')) \<le> m"
      by linarith
    then have y: "sum_list (map pending (calls w')) +
       sum_list (map will_call (threads w')) \<le> max 0 m"
      by linarith
    from x y show ?thesis by simp
  next
    case False
    with step step2 b d show ?thesis by simp
  qed
  then show ?thesis
    unfolding ledger_def using m' a' c' by blast
qed

lemma ledger_Complete:
  assumes inv: "ledger m w" and st: "step w (Complete i ret r) = Some w'"
  shows "ledger m w'"
proof -
  let ?a = "fst (calls w ! i)"
  let ?q = "callback_of (ctx w) ?a ret r"
  from step_Complete [OF st] have i: "i < length (calls w)" and undone: "\<not> snd (calls w ! i)"
    and w': "w' = w\<lparr>calls := (calls w)[i := (?a, True)], threads := threads w @ [?q]\<rparr>"
    by simp_all
  from inv have m: "max_batch_count (ctx w) = m"
    and a: "split_request_count (ctx w) =
       sum_list (map pending (calls w)) + sum_list (map held (threads w))"
    and c: "sum_list (map outside (threads w)) \<le> 1"
    and d: "sum_list (map pending (calls w)) + sum_list (map will_call (threads w)) \<le> max 0 m"
    and b: "split_request_count (ctx w) + sum_list (map committed (threads w)) +
       sum_list (map pending_next (calls w)) \<le> max 0 (3 * m - 1)"
    unfolding ledger_def by blast+
  note q = callback_of_weights [of "ctx w" ?a ret r]
  have p: "sum_list (map pending (calls w')) = sum_list (map pending (calls w)) - 1"
    using i undone by (simp add: w' sum_list_map_update pending_def)
  have f: "sum_list (map pending_next (calls w')) =
      sum_list (map pending_next (calls w)) - (if ?a = Scanner_async_next then 1 else 0)"
    using i undone by (simp add: w' sum_list_map_update pending_next_def)
  have a': "split_request_count (ctx w') =
       sum_list (map pending (calls w')) + sum_list (map held (threads w'))"
    using a q by (simp add: p) (simp add: w')
  have c': "sum_list (map outside (threads w')) \<le> 1"
    using c q by (simp add: w')
  have th: "sum_list (map committed (threads w')) =
      sum_list (map committed (threads w)) + committed ?q"
    by (simp add: w')
  have tw: "sum_list (map will_call (threads w')) =
      sum_list (map will_call (threads w)) + will_call ?q"
    by (simp add: w')
  from q have "will_call ?q \<le> 1" by blast
  with d have d': "sum_list (map pending (calls w')) + sum_list (map will_call (threads w')) \<le> max 0 m"
    unfolding tw p by simp
  from q have "committed ?q \<le> (if ?a = Scanner_async_next then 1 else 0)"
    by blast
  then have "sum_list (map committed (threads w')) + sum_list (map pending_next (calls w')) \<le>
      sum_list (map committed (threads w)) + sum_list (map pending_next (calls w))"
    unfolding th f by simp
  moreover have "split_request_count (ctx w') = split_request_count (ctx w)"
    by (simp add: w')
  ultimately have b': "split_request_count (ctx w') + sum_list (map committed (threads w')) +
       sum_list (map pending_next (calls w')) \<le> max 0 (3 * m - 1)"
    using b by simp
  have m': "max_batch_count (ctx w') = m" using m by (simp add: w')
  show ?thesis
    unfolding ledger_def using m' a' c' d' b' by blast
qed

lemma ledger_step:
  assumes "ledger m w" and "step w e = Some w'"
  shows "ledger m w'"
proof (cases e)
  case (Run t)
  with assms show ?thesis using ledger_Run by blast
next
  case (Complete i ret r)
  with assms show ?thesis using ledger_Complete by blast
next
  case Other_split_fails
  with assms(2) have "w' = w\<lparr>error_occurred := True\<rparr>" using step_Other by blast
  with assms(1) show ?thesis by (simp add: ledger_def)
qed

lemma ledger_run:
  assumes "run (start (new_scan_data_context op' sid m tmo stat topc) e) es = Some w"
  shows "ledger m w"
proof -
  let ?c = "new_scan_data_context op' sid m tmo stat topc"
  have c: "max_batch_count ?c = m" "split_request_count ?c = 0"
    by (simp_all add: new_scan_data_context_def)
  then have "ledger m (start ?c e)"
    using ledger_start [of ?c e] by simp
  with assms show ?thesis
    unfolding run_def by (rule run_with_invariant) (rule ledger_step)
qed

lemma sum_list_held_Finished:
  "\<forall>p\<in>set ps. p = Finished \<Longrightarrow> sum_list (map held ps) = 0"
  by (induction ps) (simp_all add: held_def)

text \<open>
  The points of the loop of \<open>scan_data_next\<close> are reached in their order only, each
  through the load or test before it, and no callback starts at one of them.
\<close>

lemma loop_discipline:
  "(fst (exec p w) = Call_async_next k \<longrightarrow> p = Incr_request_count k) \<and>
   (fst (exec p w) = Incr_request_count k \<longrightarrow>
      p = Load_request_count k \<and> split_request_count (ctx w) < max_batch_count (ctx w)) \<and>
   (fst (exec p w) = Load_request_count k \<longrightarrow> p = Load_error k \<and> \<not> error_occurred w) \<and>
   (fst (exec p w) = Load_error k \<longrightarrow> p = Load_completed k \<and> \<not> split_completed (ctx w))"
  by (cases p) (auto simp add: leave_def split: cont.splits option.splits if_splits)

lemma callback_of_outside_loop:
  "callback_of c a ret r \<noteq> Call_async_next k \<and> callback_of c a ret r \<noteq> Incr_request_count k \<and>
   callback_of c a ret r \<noteq> Load_request_count k \<and> callback_of c a ret r \<noteq> Load_error k"
  by (simp add: callback_of_def async_next_callback_def row_call_callback_def
      split: async_call.splits scan_data_operator.splits)

text \<open>
  Claim C3 says that \<open>split_request_count\<close> never exceeds \<open>max_batch_count\<close>. In a
  copy with \<open>max_batch_count = 1\<close>, the first call of \<open>scan_data_next\<close> counts the
  \<open>async_next\<close> it calls; the callback of that call gets a row and increments the count
  for its \<open>async_set\<close> without a test: the count is 2.
\<close>

theorem request_count_exceeds_max_batch_count_counterexample:
  "map_option (\<lambda>w. (max_batch_count (ctx w), split_request_count (ctx w)))
     (run (start (new_scan_data_context SCAN_COPY 7 1 1000 False 0) False)
        [Run 0, Run 0, Run 0, Run 0, Run 0, Run 0, Run 0, Run 0,
         Complete 0 PERR_OK (''h'', ''s'', ''v''), Run 1]) = Some (1, 2)"
  by code_simp

text \<open>
  Claim C3, amended: in every state that a split with \<open>max_batch_count = m\<close> reaches,
  however the steps of its threads interleave, the number of outstanding asynchronous
  operations (called, and the callback not yet started) is at most \<open>m\<close>, and 0 when \<open>m\<close>
  is not positive. \<open>split_request_count\<close> is not that number: it is at least that
  number, it is that number whenever every thread has finished, and it never exceeds
  \<open>3 * m - 1\<close> for \<open>m \<ge> 1\<close> (it stays 0 when \<open>m\<close> is not positive).
  A thread comes to call \<open>async_next\<close> only through the increment of the loop, to that
  increment only through the test that found the count below \<open>max_batch_count\<close>, to that
  test only through the load of \<open>error_occurred\<close> that gave \<open>false\<close>, and to that load
  only through the load of \<open>split_completed\<close> that gave \<open>false\<close>; no callback starts
  at one of these points. The test and the increment are steps of their own, and the
  increment that a callback makes for its row operation follows no test.
\<close>

theorem request_count_bounds:
  assumes "run (start (new_scan_data_context op' sid m tmo stat topc) e) es = Some w"
  shows "outstanding w \<le> max 0 m \<and>
     outstanding w \<le> split_request_count (ctx w) \<and>
     split_request_count (ctx w) \<le> max 0 (3 * m - 1) \<and>
     ((\<forall>p\<in>set (threads w). p = Finished) \<longrightarrow> split_request_count (ctx w) = outstanding w) \<and>
     (fst (exec p w) = Call_async_next k \<longrightarrow> p = Incr_request_count k) \<and>
     (fst (exec p w) = Incr_request_count k \<longrightarrow>
        p = Load_request_count k \<and> split_request_count (ctx w) < max_batch_count (ctx w)) \<and>
     (fst (exec p w) = Load_request_count k \<longrightarrow> p = Load_error k \<and> \<not> error_occurred w) \<and>
     (fst (exec p w) = Load_error k \<longrightarrow> p = Load_completed k \<and> \<not> split_completed (ctx w)) \<and>
     callback_of (ctx w) a ret r \<notin>
       {Call_async_next k, Incr_request_count k, Load_request_count k, Load_error k} \<and>
     exec (Incr_request_count k) w =
       (Call_async_next k,
        w\<lparr>ctx := (ctx w)\<lparr>split_request_count := split_request_count (ctx w) + 1\<rparr>\<rparr>) \<and>
     exec (Incr_for_row_call c r) w =
       (Call_row_call c r,
        w\<lparr>ctx := (ctx w)\<lparr>split_request_count := split_request_count (ctx w) + 1\<rparr>\<rparr>)"
proof -
  from assms have inv: "ledger m w" by (rule ledger_run)
  then have a: "split_request_count (ctx w) =
       sum_list (map pending (calls w)) + sum_list (map held (threads w))"
    and d: "sum_list (map pending (calls w)) + sum_list (map will_call (threads w)) \<le> max 0 m"
    and b: "split_request_count (ctx w) + sum_list (map committed (threads w)) +
       sum_list (map pending_next (calls w)) \<le> max 0 (3 * m - 1)"
    unfolding ledger_def by blast+
  have c0: "0 \<le> sum_list (map committed (threads w))"
    by (rule sum_list_nonneg) (auto simp add: committed_def split: pc.splits)
  have w0: "0 \<le> sum_list (map will_call (threads w))"
    by (rule sum_list_nonneg) (auto simp add: will_call_def split: pc.splits)
  have h0: "0 \<le> sum_list (map held (threads w))"
    by (rule sum_list_nonneg) (auto simp add: held_nonneg)
  have n0: "0 \<le> sum_list (map pending_next (calls w))"
    using sum_list_pending by blast
  have 1: "outstanding w \<le> max 0 m"
    using d w0 by (simp add: outstanding_pending)
  have 2: "outstanding w \<le> split_request_count (ctx w)"
    using a h0 by (simp add: outstanding_pending)
  have 3: "split_request_count (ctx w) \<le> max 0 (3 * m - 1)"
    using b c0 n0 by simp
  have 4: "split_request_count (ctx w) = outstanding w" if "\<forall>p\<in>set (threads w). p = Finished"
    using a sum_list_held_Finished [OF that] by (simp add: outstanding_pending)
  note L = loop_discipline [of p w k]
  note C = callback_of_outside_loop [of "ctx w" a ret r k]
  have I: "exec (Incr_request_count k) w =
       (Call_async_next k,
        w\<lparr>ctx := (ctx w)\<lparr>split_request_count := split_request_count (ctx w) + 1\<rparr>\<rparr>)"
    "exec (Incr_for_row_call c r) w =
       (Call_row_call c r,
        w\<lparr>ctx := (ctx w)\<lparr>split_request_count := split_request_count (ctx w) + 1\<rparr>\<rparr>)"
    by simp_all
  from C have C': "callback_of (ctx w) a ret r \<notin>
       {Call_async_next k, Incr_request_count k, Load_request_count k, Load_error k}"
    by simp
  from 1 2 3 4 L C' I show ?thesis by blast
qed

text \<open>
  The amended claim C3 at \<open>max_batch_count = 2\<close>. In the first run the loop of the first
  call and the loop of a callback both pass the test at count 1 before either increments,
  and the callbacks of their two \<open>async_next\<close> then increment for their rows and call
  \<open>async_set\<close>: two operations are outstanding and the count is \<open>3 * m - 1 = 5\<close>. In
  the second run the first call has called \<open>async_next\<close> twice and has returned: the count
  is the number of outstanding operations, 2.
\<close>

theorem request_count_bounds_witness:
  "\<exists>w w'.
     run (start (new_scan_data_context SCAN_COPY 7 2 1000 False 0) False)
       [Run 0, Run 0, Run 0, Run 0, Run 0, Run 0, Run 0, Run 0,
        Complete 0 PERR_OK (''h'', ''s'', ''v''), Run 1, Run 1, Run 1,
        Complete 1 PERR_OK ([], [], []), Run 2, Run 2, Run 2, Run 2,
        Run 0, Run 2, Run 0, Run 2,
        Complete 2 PERR_OK (''h'', ''s'', ''v''), Complete 3 PERR_OK (''h'', ''s'', ''v''),
        Run 3, Run 4, Run 3, Run 4] = Some w \<and>
     outstanding w = 2 \<and> split_request_count (ctx w) = 5 \<and>
     outstanding w \<le> max 0 2 \<and> split_request_count (ctx w) \<le> max 0 (3 * 2 - 1) \<and>
     run (start (new_scan_data_context SCAN_COPY 7 2 1000 False 0) False)
       [Run 0, Run 0, Run 0, Run 0, Run 0, Run 0, Run 0, Run 0, Run 0, Run 0, Run 0, Run 0,
        Run 0] = Some w' \<and>
     threads w' = [Finished] \<and> outstanding w' = 2 \<and> split_request_count (ctx w') = outstanding w'"
proof -
  let ?s = "start (new_scan_data_context SCAN_COPY 7 2 1000 False 0) False"
  let ?r = "run ?s
       [Run 0, Run 0, Run 0, Run 0, Run 0, Run 0, Run 0, Run 0,
        Complete 0 PERR_OK (''h'', ''s'', ''v''), Run 1, Run 1, Run 1,
        Complete 1 PERR_OK ([], [], []), Run 2, Run 2, Run 2, Run 2,
        Run 0, Run 2, Run 0, Run 2,
        Complete 2 PERR_OK (''h'', ''s'', ''v''), Complete 3 PERR_OK (''h'', ''s'', ''v''),
        Run 3, Run 4, Run 3, Run 4]"
  let ?r' = "run ?s
       [Run 0, Run 0, Run 0, Run 0, Run 0, Run 0, Run 0, Run 0, Run 0, Run 0, Run 0, Run 0,
        Run 0]"
  have "map_option (\<lambda>w. (outstanding w, split_request_count (ctx w))) ?r = Some (2, 5)"
    by code_simp
  then obtain w where r: "?r = Some w" and o: "outstanding w = 2"
    and n: "split_request_count (ctx w) = 5"
    by auto
  have "map_option (\<lambda>w. (threads w, outstanding w)) ?r' = Some ([Finished], 2)"
    by code_simp
  then obtain w' where r': "?r' = Some w'" and t': "threads w' = [Finished]"
    and o': "outstanding w' = 2"
    by auto
  note T = request_count_bounds [OF r]
  note T' = request_count_bounds [OF r']
  from T have b: "outstanding w \<le> max 0 2" "split_request_count (ctx w) \<le> max 0 (3 * 2 - 1)"
    by blast+
  from T' t' have b': "split_request_count (ctx w') = outstanding w'"
    by simp
  from r o n b r' t' o' b' show ?thesis by blast
qed

subsection \<open>Timeouts\<close>

lemma exec_timeout_ms: "timeout_ms (ctx (snd (exec p w))) = timeout_ms (ctx w)"
  by (cases p) (simp_all split: option.splits)

lemma timeouts_kept_step:
  assumes inv: "timeouts_kept tmo w" and st: "step w e = Some w'"
  shows "timeouts_kept tmo w'"
proof (cases e)
  case (Run t)
  let ?p = "threads w ! t"
  from st Run have w': "w' = (snd (exec ?p w))\<lparr>threads := (threads w)[t := fst (exec ?p w)]\<rparr>"
    using step_Run by blast
  from inv have tm: "timeout_ms (ctx w) = tmo"
    and old: "\<And>a k r t. a \<in> set (calls w) \<Longrightarrow> fst a = Row_call k r t \<Longrightarrow> t = tmo"
    unfolding timeouts_kept_def by blast+
  have tm': "timeout_ms (ctx w') = tmo"
    using tm by (simp add: w' exec_timeout_ms)
  have "\<And>a k r t. a \<in> set (calls w') \<Longrightarrow> fst a = Row_call k r t \<Longrightarrow> t = tmo"
  proof -
    fix a k r t' assume a: "a \<in> set (calls w')" and f: "fst a = Row_call k r t'"
    from a have a': "a \<in> set (calls (snd (exec ?p w)))" by (simp add: w')
    from exec_calls [of ?p w] show "t' = tmo"
    proof (elim disjE exE conjE)
      assume "calls (snd (exec ?p w)) = calls w"
      with a' have "a \<in> set (calls w)" by simp
      with f show ?thesis by (rule old [rotated])
    next
      fix k' assume "calls (snd (exec ?p w)) = calls w @ [(Scanner_async_next, False)]"
      with a' f have "a \<in> set (calls w)" by auto
      with f show ?thesis by (rule old [rotated])
    next
      fix c' r'
      assume "calls (snd (exec ?p w)) = calls w @ [(Row_call c' r' (timeout_ms (ctx w)), False)]"
      with a' have "a \<in> set (calls w) \<or> a = (Row_call c' r' (timeout_ms (ctx w)), False)"
        by auto
      then show ?thesis
      proof
        assume "a \<in> set (calls w)"
        with f show ?thesis by (rule old [rotated])
      next
        assume "a = (Row_call c' r' (timeout_ms (ctx w)), False)"
        with f tm show ?thesis by simp
      qed
    qed
  qed
  with tm' show ?thesis unfolding timeouts_kept_def by blast
next
  case (Complete i ret r)
  with st have w': "w' = w\<lparr>calls := (calls w)[i := (fst (calls w ! i), True)],
       threads := threads w @ [callback_of (ctx w) (fst (calls w ! i)) ret r]\<rparr>"
    and i: "i < length (calls w)"
    using step_Complete by blast+
  from inv have tm: "timeout_ms (ctx w) = tmo"
    and old: "\<And>a k r t. a \<in> set (calls w) \<Longrightarrow> fst a = Row_call k r t \<Longrightarrow> t = tmo"
    unfolding timeouts_kept_def by blast+
  have "\<And>a k r t. a \<in> set (calls w') \<Longrightarrow> fst a = Row_call k r t \<Longrightarrow> t = tmo"
  proof -
    fix a k r' t' assume a: "a \<in> set (calls w')" and f: "fst a = Row_call k r' t'"
    from a have "a \<in> insert (fst (calls w ! i), True) (set (calls w))"
      using set_update_subset_insert [of "calls w" i] by (auto simp add: w')
    then show "t' = tmo"
    proof
      assume "a = (fst (calls w ! i), True)"
      then have "fst (calls w ! i) = Row_call k r' t'" using f by simp
      with old [of "calls w ! i"] i show ?thesis by simp
    next
      assume "a \<in> set (calls w)"
      with old f show ?thesis by blast
    qed
  qed
  with tm show ?thesis unfolding timeouts_kept_def by (simp add: w')
next
  case Other_split_fails
  with st have "w' = w\<lparr>error_occurred := True\<rparr>" using step_Other by blast
  with inv show ?thesis by (simp add: timeouts_kept_def)
qed

text \<open>
  Claim C6 says that each call of the fan-out carries the timeout its caller chose.
  \<open>call_remote_command\<close> takes no timeout from its caller: whatever the caller would
  choose, each call carries 5000 milliseconds.
\<close>

theorem fan_out_timeout_counterexample:
  "map call_timeout_ms
     (remote_calls [\<lparr>desc = ''replica-server'', address = 1\<rparr>,
                    \<lparr>desc = ''replica-server'', address = 2\<rparr>]
        \<lparr>cmd = ''perf-counters'', arguments = []\<rparr>) = [5000, 5000]"
  by (simp add: remote_calls_def)

text \<open>
  Claim C6, amended: every copy, delete and geo operation that a split calls carries the
  timeout \<open>timeout_ms\<close> that the caller put into the split's context; every call of the
  command fan-out carries the fixed timeout of 5000 milliseconds.
\<close>

theorem row_calls_carry_timeout_ms:
  "(run (start c e) es = Some w \<longrightarrow>
      (\<forall>k r t d. (Row_call k r t, d) \<in> set (calls w) \<longrightarrow> t = timeout_ms c)) \<and>
   (\<forall>x\<in>set (remote_calls nodes cm). call_timeout_ms x = 5000)"
proof
  show "run (start c e) es = Some w \<longrightarrow>
      (\<forall>k r t d. (Row_call k r t, d) \<in> set (calls w) \<longrightarrow> t = timeout_ms c)"
  proof
    assume r: "run (start c e) es = Some w"
    have "timeouts_kept (timeout_ms c) (start c e)"
      by (simp add: timeouts_kept_def start_def)
    with r have "timeouts_kept (timeout_ms c) w"
      unfolding run_def by (rule run_with_invariant) (rule timeouts_kept_step)
    then show "\<forall>k r t d. (Row_call k r t, d) \<in> set (calls w) \<longrightarrow> t = timeout_ms c"
      unfolding timeouts_kept_def by force
  qed
  show "\<forall>x\<in>set (remote_calls nodes cm). call_timeout_ms x = 5000"
    by (auto simp add: remote_calls_def)
qed

text \<open>The amended claim C6 at a copy with \<open>timeout_ms = 1000\<close> that has called \<open>async_set\<close>.\<close>

theorem row_calls_carry_timeout_ms_witness:
  "\<exists>w. run (start (new_scan_data_context SCAN_COPY 7 1 1000 False 0) False)
          [Run 0, Run 0, Run 0, Run 0, Run 0, Run 0, Run 0, Run 0,
           Complete 0 PERR_OK (''h'', ''s'', ''v''), Run 1, Run 1] = Some w \<and>
        calls w = [(Scanner_async_next, True), (Row_call Async_set (''h'', ''s'', ''v'') 1000, False)] \<and>
        (1000::int) = timeout_ms (new_scan_data_context SCAN_COPY 7 1 1000 False 0)"
proof -
  let ?c = "new_scan_data_context SCAN_COPY 7 1 1000 False 0"
  let ?r = "run (start ?c False)
          [Run 0, Run 0, Run 0, Run 0, Run 0, Run 0, Run 0, Run 0,
           Complete 0 PERR_OK (''h'', ''s'', ''v''), Run 1, Run 1]"
  have "map_option calls ?r =
      Some [(Scanner_async_next, True), (Row_call Async_set (''h'', ''s'', ''v'') 1000, False)]"
    by code_simp
  then obtain w where r: "?r = Some w"
    and cs: "calls w = [(Scanner_async_next, True), (Row_call Async_set (''h'', ''s'', ''v'') 1000, False)]"
    by auto
  from cs have "(Row_call Async_set (''h'', ''s'', ''v'') 1000, False) \<in> set (calls w)"
    by simp
  with row_calls_carry_timeout_ms [of ?c False _ w] r have "(1000::int) = timeout_ms ?c"
    by blast
  with r cs show ?thesis by blast
qed

subsection \<open>The end of the scan\<close>

text \<open>
  Claim C7: when \<open>async_next\<close> reports the end of the scan, its callback stores
  \<open>split_completed\<close> and decrements \<open>split_request_count\<close>, and nothing else:
  \<open>error_occurred\<close> and the error stream are as before. When it reports an error
  instead, and \<open>split_completed\<close> is not set, its callback sets \<open>split_completed\<close> and
  \<open>error_occurred\<close> and prints the error line. (Both for the callback running on its own
  from the state in which the call completes.)
\<close>

theorem scan_complete_is_not_an_error:
  assumes "i < length (calls w)" and "calls w ! i = (Scanner_async_next, False)"
    and "t = length (threads w)"
  shows "run w [Complete i PERR_SCAN_COMPLETE r, Run t, Run t] =
      Some (w\<lparr>ctx := (ctx w)\<lparr>split_request_count := split_request_count (ctx w) - 1,
                              split_completed := True\<rparr>,
              calls := (calls w)[i := (Scanner_async_next, True)],
              threads := threads w @ [Finished]\<rparr>) \<and>
     (\<not> split_completed (ctx w) \<longrightarrow>
      run w [Complete i (PERR_OTHER x) r, Run t, Run t, Run t, Run t] =
        Some (w\<lparr>ctx := (ctx w)\<lparr>split_request_count := split_request_count (ctx w) - 1,
                                split_completed := True\<rparr>,
                error_occurred := True,
                stderr := stderr w @ [(''scan next'', split_id (ctx w), PERR_OTHER x)],
                calls := (calls w)[i := (Scanner_async_next, True)],
                threads := threads w @ [Finished]\<rparr>))"
  using assms
  by (simp add: run_def step_def callback_of_def async_next_callback_def running_def nth_append)

text \<open>
  Claim C7 at the state of a copy after its first call of \<open>async_next\<close>.
\<close>

theorem scan_complete_is_not_an_error_witness:
  "\<exists>w w1 w2.
     run (start (new_scan_data_context SCAN_COPY 7 1 1000 False 0) False)
       [Run 0, Run 0, Run 0, Run 0, Run 0] = Some w \<and>
     0 < length (calls w) \<and> calls w ! 0 = (Scanner_async_next, False) \<and>
     1 = length (threads w) \<and> \<not> split_completed (ctx w) \<and> \<not> error_occurred w \<and> stderr w = [] \<and>
     run w [Complete 0 PERR_SCAN_COMPLETE ([], [], []), Run 1, Run 1] = Some w1 \<and>
     split_completed (ctx w1) \<and> \<not> error_occurred w1 \<and> stderr w1 = [] \<and>
     run w [Complete 0 (PERR_OTHER 5) ([], [], []), Run 1, Run 1, Run 1, Run 1] = Some w2 \<and>
     split_completed (ctx w2) \<and> error_occurred w2 \<and> stderr w2 = [(''scan next'', 7, PERR_OTHER 5)]"
proof -
  let ?r = "run (start (new_scan_data_context SCAN_COPY 7 1 1000 False 0) False)
       [Run 0, Run 0, Run 0, Run 0, Run 0]"
  have "map_option (\<lambda>w. (calls w, length (threads w), split_completed (ctx w), error_occurred w,
            stderr w, split_id (ctx w))) ?r =
      Some ([(Scanner_async_next, False)], 1, False, False, [], 7)"
    by code_simp
  then obtain w where r: "?r = Some w" and c: "calls w = [(Scanner_async_next, False)]"
    and l: "1 = length (threads w)" and n: "\<not> split_completed (ctx w)"
    and e: "\<not> error_occurred w" and s: "stderr w = []" and sid: "split_id (ctx w) = 7"
    by auto
  from c have i: "0 < length (calls w)" and p: "calls w ! 0 = (Scanner_async_next, False)"
    by simp_all
  note T = scan_complete_is_not_an_error [OF i p l, of "([], [], [])" 5]
  from T obtain w1 where r1: "run w [Complete 0 PERR_SCAN_COMPLETE ([], [], []), Run 1, Run 1] = Some w1"
    and w1: "w1 = w\<lparr>ctx := (ctx w)\<lparr>split_request_count := split_request_count (ctx w) - 1,
                              split_completed := True\<rparr>,
              calls := (calls w)[0 := (Scanner_async_next, True)],
              threads := threads w @ [Finished]\<rparr>"
    by blast
  from T n obtain w2 where r2: "run w [Complete 0 (PERR_OTHER 5) ([], [], []), Run 1, Run 1, Run 1, Run 1] = Some w2"
    and w2: "w2 = w\<lparr>ctx := (ctx w)\<lparr>split_request_count := split_request_count (ctx w) - 1,
                                split_completed := True\<rparr>,
                error_occurred := True,
                stderr := stderr w @ [(''scan next'', split_id (ctx w), PERR_OTHER 5)],
                calls := (calls w)[0 := (Scanner_async_next, True)],
                threads := threads w @ [Finished]\<rparr>"
    by blast
  have a1: "split_completed (ctx w1) \<and> \<not> error_occurred w1 \<and> stderr w1 = []"
    using e s by (simp add: w1)
  have a2: "split_completed (ctx w2) \<and> error_occurred w2 \<and> stderr w2 = [(''scan next'', 7, PERR_OTHER 5)]"
    using s sid by (simp add: w2)
  from r i p l n e s r1 a1 r2 a2 show ?thesis by blast
qed

end
